theory Spec2Isabelle
  imports Complex_Main "HOL-Library.AList" "HOL-Library.Multiset"
begin

section \<open>JavaScript strings\<close>

text \<open>
  A JavaScript string is a sequence of UTF-16 code units. The model keeps each code unit as
  a natural number, so that the non-ASCII text of the source (the yen sign U+00A5, the
  "free" marker U+514D U+8D39) is a list of numbers. \<open>js\<close> turns an ASCII literal into
  such a list.
\<close>

type_synonym jsstring = "nat list"

definition js :: "string \<Rightarrow> jsstring" where
  "js s = map of_char s"

text \<open>\<open>String.prototype.includes\<close>: does \<open>sub\<close> occur in \<open>s\<close>.\<close>

fun js_includes :: "jsstring \<Rightarrow> jsstring \<Rightarrow> bool" where
  "js_includes [] sub = (sub = [])"
| "js_includes (c # cs) sub = (if take (length sub) (c # cs) = sub then True else js_includes cs sub)"

text \<open>A string used as a condition: \<open>undefined\<close> and the empty string are falsy.\<close>

fun truthy_str :: "jsstring option \<Rightarrow> bool" where
  "truthy_str None = False"
| "truthy_str (Some s) = (s \<noteq> [])"

section \<open>JSON values\<close>

text \<open>
  The values \<open>JSON.parse\<close> produces. A number keeps its literal as written (JavaScript
  would round it to the nearest double); an object keeps its members in document order.
\<close>

datatype json =
    JNull
  | JBool bool
  | JNumber jsstring
  | JString jsstring
  | JArray "json list"
  | JObject "(jsstring \<times> json) list"

section \<open>The data model (types.ts)\<close>

datatype Pacing = COMPACT | MODERATE | LEISURE

datatype AccommodationType = CAR | HOTEL

datatype PointType = Attraction | Restaurant | Parking | Hotel | Start | End

text \<open>
  Optional fields (\<open>?:\<close>) are options, \<open>None\<close> for \<open>undefined\<close>. Counts are integers;
  the ratings and coordinates, which nothing here computes with, are reals.
\<close>

record LocationPoint =
  point_id :: jsstring
  name :: jsstring
  ptype :: PointType
  time :: jsstring
  duration :: jsstring
  ticket_price :: "jsstring option"
  average_cost :: "jsstring option"
  description :: jsstring
  rating :: real
  user_ratings_total :: int
  arrivalTime :: jsstring
  travelTimeToNext :: "jsstring option"
  lat :: real
  lng :: real
  photo_url :: "jsstring option"
  address :: "jsstring option"
  alternatives :: "json list option"
  reviews :: "jsstring list option"
  photos :: "jsstring list option"

record DayItinerary =
  day :: int
  date :: jsstring
  transportation_cost :: "jsstring option"
  points :: "LocationPoint list"

record TravelPlan =
  plan_id :: jsstring
  title :: jsstring
  startPoint :: jsstring
  endPoint :: jsstring
  startTime :: jsstring
  endTime :: jsstring
  durationDays :: int
  travelers :: int
  isRoundTrip :: bool
  pacing :: Pacing
  includeAccom :: bool
  accommodationType :: AccommodationType
  hotelBudget :: int
  mustVisit :: "jsstring list option"
  avoid :: "jsstring list option"
  days :: "DayItinerary list"

section \<open>Cost aggregation\<close>

definition isDigit :: "nat \<Rightarrow> bool" where
  "isDigit c = (48 \<le> c \<and> c \<le> 57)"

text \<open>\<open>parseInt(ds, 10)\<close> on a run of decimal digits.\<close>

definition parseInt10 :: "jsstring \<Rightarrow> int" where
  "parseInt10 ds = foldl (\<lambda>n c. 10 * n + (int c - 48)) 0 ds"

text \<open>The first match of \<open>/(\d+)/\<close>: the first maximal run of decimal digits.\<close>

definition firstDigitRun :: "jsstring \<Rightarrow> jsstring" where
  "firstDigitRun s = takeWhile isDigit (dropWhile (\<lambda>c. \<not> isDigit c) s)"

definition parsePrice :: "jsstring option \<Rightarrow> int" where
  "parsePrice priceStr =
     (if \<not> truthy_str priceStr then 0
      else (case firstDigitRun (the priceStr) of
              [] \<Rightarrow> 0
            | d # ds \<Rightarrow> parseInt10 (d # ds)))"

text \<open>The "free" marker, U+514D U+8D39.\<close>

definition free_marker :: jsstring where
  "free_marker = [0x514D, 0x8D39]"

text \<open>\<open>pt.f && !pt.f.includes(free)\<close> for an optional price field.\<close>

definition charged :: "jsstring option \<Rightarrow> bool" where
  "charged f = (case f of None \<Rightarrow> False | Some s \<Rightarrow> s \<noteq> [] \<and> \<not> js_includes s free_marker)"

text \<open>
  \<open>calculatePointCost\<close>: the three \<open>cost +=\<close> steps in the source's order. The traveler
  count \<open>trav\<close> is an integer, \<open>Math.ceil(travelers / 2)\<close> the ceiling of the real
  quotient. (The fields \<open>id\<close> of the source are \<open>point_id\<close> and \<open>plan_id\<close>, and \<open>type\<close>
  is \<open>ptype\<close>.)
\<close>

definition calculatePointCost :: "LocationPoint \<Rightarrow> int \<Rightarrow> int" where
  "calculatePointCost pt trav =
     (let cost = 0;
          cost = (if charged (ticket_price pt)
                  then cost + parsePrice (ticket_price pt) * trav else cost);
          cost = (if charged (average_cost pt)
                  then (let price = parsePrice (average_cost pt) in
                        if ptype pt = Hotel
                        then (let rooms = \<lceil>real_of_int trav / 2\<rceil> in cost + price * rooms)
                        else if ptype pt = Restaurant then cost + price * trav
                        else cost + price * trav)
                  else cost);
          cost = (if ptype pt = Parking \<and> truthy_str (ticket_price pt)
                  then cost + parsePrice (ticket_price pt) else cost)
      in cost)"

record CostSummary =
  total :: int
  transport :: int
  accom :: int
  dining :: int
  tickets :: int

text \<open>The body of the inner \<open>forEach\<close> of \<open>calculateTotalCost\<close>, for one point.\<close>

definition addPointCost :: "int \<Rightarrow> CostSummary \<Rightarrow> LocationPoint \<Rightarrow> CostSummary" where
  "addPointCost trav acc pt =
     (let cost = calculatePointCost pt trav;
          acc = acc\<lparr>total := total acc + cost\<rparr>
      in if ptype pt = Hotel then acc\<lparr>accom := accom acc + cost\<rparr>
         else if ptype pt = Restaurant then acc\<lparr>dining := dining acc + cost\<rparr>
         else if ptype pt = Attraction then acc\<lparr>tickets := tickets acc + cost\<rparr>
         else if ptype pt = Parking then acc\<lparr>transport := transport acc + cost\<rparr>
         else acc)"

text \<open>The body of the outer \<open>forEach\<close>, for one day.\<close>

definition addDayCost :: "int \<Rightarrow> CostSummary \<Rightarrow> DayItinerary \<Rightarrow> CostSummary" where
  "addDayCost trav acc d =
     (let acc = (if truthy_str (transportation_cost d)
                 then (let tCost = parsePrice (transportation_cost d)
                       in acc\<lparr>total := total acc + tCost, transport := transport acc + tCost\<rparr>)
                 else acc)
      in foldl (addPointCost trav) acc (points d))"

definition calculateTotalCost :: "TravelPlan \<Rightarrow> CostSummary" where
  "calculateTotalCost p =
     foldl (addDayCost (travelers p))
       \<lparr>total = 0, transport = 0, accom = 0, dining = 0, tickets = 0\<rparr> (days p)"

text \<open>
  What \<open>calculateTotalCost\<close> adds to the total without adding it to any bucket: the cost
  of the points of type \<open>start\<close> and \<open>end\<close>, for which the \<open>else if\<close> chain has no branch.
\<close>

definition unbucketed :: "int \<Rightarrow> LocationPoint list \<Rightarrow> int" where
  "unbucketed trav pts =
     sum_list (map (\<lambda>pt. calculatePointCost pt trav)
       (filter (\<lambda>pt. ptype pt = Start \<or> ptype pt = End) pts))"

definition bucket_sum :: "CostSummary \<Rightarrow> int" where
  "bucket_sum c = transport c + accom c + dining c + tickets c"

section \<open>JSON.parse\<close>

text \<open>
  \<open>JSON.parse\<close> is a built-in of the language, not code of the repository. It is modelled
  here after the JSON grammar (ECMA-404) as a pushdown automaton that reads the text one
  code unit at a time: a stack of the containers still open, what the grammar expects
  between tokens, and the token in progress. \<open>None\<close> stands for the \<open>SyntaxError\<close>.
\<close>

text \<open>The four whitespace characters of JSON: tab, line feed, carriage return, space.\<close>

definition isJsonWs :: "nat \<Rightarrow> bool" where
  "isJsonWs c = (c = 9 \<or> c = 10 \<or> c = 13 \<or> c = 32)"

datatype numstate = NMinus | NZero | NInt | NDot | NFrac | NE | NESign | NExp

text \<open>
  The number grammar \<open>-? (0 | [1-9][0-9]*) (. [0-9]+)? ([eE] [+-]? [0-9]+)?\<close>:
  \<open>num_next\<close> is the state after one more character of the number, \<open>None\<close> when the
  character cannot continue it; a number may end in a state of \<open>num_final\<close>.
\<close>

fun num_next :: "numstate \<Rightarrow> nat \<Rightarrow> numstate option" where
  "num_next NMinus c = (if c = 48 then Some NZero else if isDigit c then Some NInt else None)"
| "num_next NZero c = (if c = 46 then Some NDot else if c = 101 \<or> c = 69 then Some NE else None)"
| "num_next NInt c = (if isDigit c then Some NInt else if c = 46 then Some NDot
                      else if c = 101 \<or> c = 69 then Some NE else None)"
| "num_next NDot c = (if isDigit c then Some NFrac else None)"
| "num_next NFrac c = (if isDigit c then Some NFrac
                       else if c = 101 \<or> c = 69 then Some NE else None)"
| "num_next NE c = (if c = 43 \<or> c = 45 then Some NESign
                    else if isDigit c then Some NExp else None)"
| "num_next NESign c = (if isDigit c then Some NExp else None)"
| "num_next NExp c = (if isDigit c then Some NExp else None)"

fun num_final :: "numstate \<Rightarrow> bool" where
  "num_final NZero = True"
| "num_final NInt = True"
| "num_final NFrac = True"
| "num_final NExp = True"
| "num_final _ = False"

text \<open>The token in progress: none, a string (its decoded code units so far), a string
  just after a backslash, a \<open>\u\<close> escape with the hex digits read so far, a number with
  its literal so far, or a literal name with the characters still to come.\<close>

datatype lexstate =
    LNone
  | LStr jsstring
  | LEsc jsstring
  | LUni jsstring "nat list"
  | LNum numstate jsstring
  | LLit jsstring json

text \<open>What the grammar expects between tokens.\<close>

datatype expect =
    EValue
  | EValueOrEnd
  | EKeyOrEnd
  | EKey
  | EColon
  | ECommaOrEnd
  | EDone json

text \<open>An open container: the elements of an array so far, or the members of an object
  so far with the key whose value is awaited.\<close>

datatype frame =
    FArray "json list"
  | FObject "(jsstring \<times> json) list" "jsstring option"

datatype pstate = PFail | PState "frame list" expect lexstate

fun wants_value :: "expect \<Rightarrow> bool" where
  "wants_value EValue = True"
| "wants_value EValueOrEnd = True"
| "wants_value _ = False"

fun wants_key :: "expect \<Rightarrow> bool" where
  "wants_key EKeyOrEnd = True"
| "wants_key EKey = True"
| "wants_key _ = False"

fun may_close :: "expect \<Rightarrow> bool" where
  "may_close EValueOrEnd = True"
| "may_close EKeyOrEnd = True"
| "may_close ECommaOrEnd = True"
| "may_close _ = False"

text \<open>A complete value goes to the innermost open container, or is the result. A key
  given twice keeps its first position and takes the later value, as a JavaScript object
  does.\<close>

fun push_value :: "json \<Rightarrow> frame list \<Rightarrow> pstate" where
  "push_value v [] = PState [] (EDone v) LNone"
| "push_value v (FArray xs # fs) = PState (FArray (xs @ [v]) # fs) ECommaOrEnd LNone"
| "push_value v (FObject kvs (Some k) # fs) =
     PState (FObject (AList.update k v kvs) None # fs) ECommaOrEnd LNone"
| "push_value v (FObject kvs None # fs) = PFail"

fun string_done :: "frame list \<Rightarrow> expect \<Rightarrow> jsstring \<Rightarrow> pstate" where
  "string_done (FObject kvs _ # fs) EKeyOrEnd s = PState (FObject kvs (Some s) # fs) EColon LNone"
| "string_done (FObject kvs _ # fs) EKey s = PState (FObject kvs (Some s) # fs) EColon LNone"
| "string_done fs EValue s = push_value (JString s) fs"
| "string_done fs EValueOrEnd s = push_value (JString s) fs"
| "string_done _ _ _ = PFail"

fun close_array :: "frame list \<Rightarrow> pstate" where
  "close_array (FArray xs # fs) = push_value (JArray xs) fs"
| "close_array _ = PFail"

fun close_object :: "frame list \<Rightarrow> pstate" where
  "close_object (FObject kvs None # fs) = push_value (JObject kvs) fs"
| "close_object _ = PFail"

fun after_comma :: "frame list \<Rightarrow> pstate" where
  "after_comma (FArray xs # fs) = PState (FArray xs # fs) EValue LNone"
| "after_comma (FObject kvs k # fs) = PState (FObject kvs k # fs) EKey LNone"
| "after_comma [] = PFail"

text \<open>One character between tokens.\<close>

definition struct_step :: "frame list \<Rightarrow> expect \<Rightarrow> nat \<Rightarrow> pstate" where
  "struct_step fs e c =
     (if isJsonWs c then PState fs e LNone
      else if c = 34 then (if wants_value e \<or> wants_key e then PState fs e (LStr []) else PFail)
      else if c = 91 then (if wants_value e then PState (FArray [] # fs) EValueOrEnd LNone else PFail)
      else if c = 123 then (if wants_value e then PState (FObject [] None # fs) EKeyOrEnd LNone else PFail)
      else if c = 93 then (if may_close e then close_array fs else PFail)
      else if c = 125 then (if may_close e then close_object fs else PFail)
      else if c = 44 then (if e = ECommaOrEnd then after_comma fs else PFail)
      else if c = 58 then (if e = EColon then PState fs EValue LNone else PFail)
      else if wants_value e then
        (if c = 116 then PState fs e (LLit [114, 117, 101] (JBool True))
         else if c = 102 then PState fs e (LLit [97, 108, 115, 101] (JBool False))
         else if c = 110 then PState fs e (LLit [117, 108, 108] JNull)
         else if c = 45 then PState fs e (LNum NMinus [c])
         else if c = 48 then PState fs e (LNum NZero [c])
         else if isDigit c then PState fs e (LNum NInt [c])
         else PFail)
      else PFail)"

definition hexval :: "nat \<Rightarrow> nat option" where
  "hexval c = (if 48 \<le> c \<and> c \<le> 57 then Some (c - 48)
               else if 97 \<le> c \<and> c \<le> 102 then Some (c - 87)
               else if 65 \<le> c \<and> c \<le> 70 then Some (c - 55)
               else None)"

text \<open>The character an escape \<open>\c\<close> stands for (\<open>\u\<close> apart).\<close>

definition unescape :: "nat \<Rightarrow> nat option" where
  "unescape c = (if c = 34 \<or> c = 92 \<or> c = 47 then Some c
                 else if c = 98 then Some 8
                 else if c = 102 then Some 12
                 else if c = 110 then Some 10
                 else if c = 114 then Some 13
                 else if c = 116 then Some 9
                 else None)"

fun lex_step :: "frame list \<Rightarrow> expect \<Rightarrow> lexstate \<Rightarrow> nat \<Rightarrow> pstate" where
  "lex_step fs e LNone c = struct_step fs e c"
| "lex_step fs e (LStr acc) c =
     (if c = 34 then string_done fs e acc
      else if c = 92 then PState fs e (LEsc acc)
      else if c < 32 then PFail
      else PState fs e (LStr (acc @ [c])))"
| "lex_step fs e (LEsc acc) c =
     (if c = 117 then PState fs e (LUni acc [])
      else (case unescape c of
              None \<Rightarrow> PFail
            | Some d \<Rightarrow> PState fs e (LStr (acc @ [d]))))"
| "lex_step fs e (LUni acc hs) c =
     (case hexval c of
        None \<Rightarrow> PFail
      | Some h \<Rightarrow>
          if length hs = 3
          then PState fs e (LStr (acc @ [foldl (\<lambda>n d. 16 * n + d) 0 (hs @ [h])]))
          else PState fs e (LUni acc (hs @ [h])))"
| "lex_step fs e (LNum ns lx) c =
     (case num_next ns c of
        Some ns' \<Rightarrow> PState fs e (LNum ns' (lx @ [c]))
      | None \<Rightarrow>
          if num_final ns
          then (case push_value (JNumber lx) fs of
                  PFail \<Rightarrow> PFail
                | PState fs' e' l' \<Rightarrow> struct_step fs' e' c)
          else PFail)"
| "lex_step fs e (LLit [] v) c = PFail"
| "lex_step fs e (LLit (r # rs) v) c =
     (if c = r then (if rs = [] then push_value v fs else PState fs e (LLit rs v))
      else PFail)"

fun step :: "pstate \<Rightarrow> nat \<Rightarrow> pstate" where
  "step PFail c = PFail"
| "step (PState fs e l) c = lex_step fs e l c"

definition run :: "jsstring \<Rightarrow> pstate" where
  "run s = foldl step (PState [] EValue LNone) s"

text \<open>At the end of the text the value must be complete; a number at top level ends
  with the text.\<close>

fun finish :: "pstate \<Rightarrow> json option" where
  "finish (PState [] (EDone v) LNone) = Some v"
| "finish (PState [] e (LNum ns lx)) = (if num_final ns then Some (JNumber lx) else None)"
| "finish _ = None"

definition JSON_parse :: "jsstring \<Rightarrow> json option" where
  "JSON_parse s = finish (run s)"

section \<open>The parser (geminiService.ts, extractJson)\<close>

text \<open>
  What \<open>\s\<close> and \<open>trim\<close> take for whitespace: the white space and line terminator
  characters of the language.
\<close>

definition isJsSpace :: "nat \<Rightarrow> bool" where
  "isJsSpace c = (c = 9 \<or> c = 10 \<or> c = 11 \<or> c = 12 \<or> c = 13 \<or> c = 32 \<or> c = 0xA0
                  \<or> c = 0x1680 \<or> (0x2000 \<le> c \<and> c \<le> 0x200A) \<or> c = 0x2028 \<or> c = 0x2029
                  \<or> c = 0x202F \<or> c = 0x205F \<or> c = 0x3000 \<or> c = 0xFEFF)"

text \<open>The line terminators, where \<open>.\<close> stops and \<open>^\<close> and \<open>$\<close> match under the flag
  \<open>m\<close>.\<close>

definition isLineTerminator :: "nat \<Rightarrow> bool" where
  "isLineTerminator c = (c = 10 \<or> c = 13 \<or> c = 0x2028 \<or> c = 0x2029)"

definition trim :: "jsstring \<Rightarrow> jsstring" where
  "trim s = rev (dropWhile isJsSpace (rev (dropWhile isJsSpace s)))"

text \<open>The text before and after the first occurrence of \<open>sub\<close>.\<close>

fun findSub :: "jsstring \<Rightarrow> jsstring \<Rightarrow> (jsstring \<times> jsstring) option" where
  "findSub sub [] = (if sub = [] then Some ([], []) else None)"
| "findSub sub (c # cs) =
     (if take (length sub) (c # cs) = sub then Some ([], drop (length sub) (c # cs))
      else (case findSub sub cs of
              None \<Rightarrow> None
            | Some (before, after) \<Rightarrow> Some (c # before, after)))"

definition fence :: jsstring where
  "fence = [96, 96, 96]"

text \<open>
  Group 1 of the first match of \<open>/```(?:json)?\s*([\s\S]*?)```/\<close>. The match starts at
  the first fence that has a closing fence after it; no later start can succeed where the
  first fails, and giving back \<open>json\<close> or whitespace cannot reach a closing fence that the
  greedy match misses, since neither contains a backtick. The lazy group ends at the first
  closing fence.
\<close>

definition codeBlockMatch :: "jsstring \<Rightarrow> jsstring option" where
  "codeBlockMatch s =
     (case findSub fence s of
        None \<Rightarrow> None
      | Some (before, r1) \<Rightarrow>
          (let r2 = (if take 4 r1 = [106, 115, 111, 110] then drop 4 r1 else r1);
               r3 = dropWhile isJsSpace r2
           in (case findSub fence r3 of
                 None \<Rightarrow> None
               | Some (inner, after) \<Rightarrow> Some inner)))"

text \<open>
  \<open>replace(/(^|[^:])\/\/.*$/gm, '$1')\<close>. \<open>bol\<close> says that the position is the start of a
  line. At each position the first alternative (a line start, then \<open>//\<close>) is tried before
  the second (a character other than a colon, then \<open>//\<close>, the character kept as \<open>$1\<close>);
  a match runs to the end of the line, and the search goes on from there.
\<close>

function stripComments :: "bool \<Rightarrow> jsstring \<Rightarrow> jsstring" where
  "stripComments bol [] = []"
| "stripComments bol (c # cs) =
     (if bol \<and> c = 47 \<and> take 1 cs = [47]
      then stripComments False (dropWhile (\<lambda>x. \<not> isLineTerminator x) (drop 1 cs))
      else if c \<noteq> 58 \<and> take 2 cs = [47, 47]
      then c # stripComments False (dropWhile (\<lambda>x. \<not> isLineTerminator x) (drop 2 cs))
      else c # stripComments (isLineTerminator c) cs)"
  by pat_completeness auto
termination
proof (relation "measure (\<lambda>(bol, s). length s)")
  show "wf (measure (\<lambda>(bol, s). length s))"
    by simp
next
  fix bol :: bool and c :: nat and cs :: jsstring
  have "length (dropWhile (\<lambda>x. \<not> isLineTerminator x) (drop 1 cs)) \<le> length (drop 1 cs)"
    by (rule length_dropWhile_le)
  then show "((False, dropWhile (\<lambda>x. \<not> isLineTerminator x) (drop 1 cs)), (bol, c # cs))
               \<in> measure (\<lambda>(bol, s). length s)"
    by simp
next
  fix bol :: bool and c :: nat and cs :: jsstring
  have "length (dropWhile (\<lambda>x. \<not> isLineTerminator x) (drop 2 cs)) \<le> length (drop 2 cs)"
    by (rule length_dropWhile_le)
  then show "((False, dropWhile (\<lambda>x. \<not> isLineTerminator x) (drop 2 cs)), (bol, c # cs))
               \<in> measure (\<lambda>(bol, s). length s)"
    by simp
next
  fix bol :: bool and c :: nat and cs :: jsstring
  show "((isLineTerminator c, cs), (bol, c # cs)) \<in> measure (\<lambda>(bol, s). length s)"
    by simp
qed

text \<open>\<open>search(/[\{\[]/)\<close> and \<open>substring\<close>: the text from the first brace or bracket on,
  the whole text when there is none.\<close>

definition fromFirstOpen :: "jsstring \<Rightarrow> jsstring" where
  "fromFirstOpen s =
     (case dropWhile (\<lambda>c. c \<noteq> 123 \<and> c \<noteq> 91) s of
        [] \<Rightarrow> s
      | c # cs \<Rightarrow> c # cs)"

text \<open>Steps 1 to 3: the text that the first \<open>JSON.parse\<close> is tried on.\<close>

definition cleanText :: "jsstring \<Rightarrow> jsstring" where
  "cleanText text =
     (let jsonString = trim text;
          jsonString = (case codeBlockMatch jsonString of
                          None \<Rightarrow> jsonString
                        | Some inner \<Rightarrow> if inner \<noteq> [] then trim inner else jsonString);
          jsonString = stripComments True jsonString
      in fromFirstOpen jsonString)"

text \<open>
  The state of the repair scan: the stack of expected closers (innermost first), the two
  flags, the index of the last character outside a string that is not whitespace (\<open>-1\<close>
  at the start), and the loop counter \<open>i\<close>.
\<close>

record ScanState =
  stack :: "nat list"
  inString :: bool
  isEscaped :: bool
  lastValidCharIndex :: int
  idx :: nat

text \<open>The part of the loop body that runs outside a string.\<close>

definition scanOutside :: "ScanState \<Rightarrow> nat \<Rightarrow> ScanState" where
  "scanOutside st c =
     (let st = (if c = 123 then st\<lparr>stack := 125 # stack st\<rparr>
                else if c = 91 then st\<lparr>stack := 93 # stack st\<rparr>
                else if c = 125 \<or> c = 93
                then (case stack st of
                        [] \<Rightarrow> st
                      | expected # rest \<Rightarrow> if c = expected then st\<lparr>stack := rest\<rparr> else st)
                else st)
      in if isJsSpace c then st else st\<lparr>lastValidCharIndex := int (idx st)\<rparr>)"

text \<open>One iteration of the loop, with the \<open>i++\<close> that follows it (also after
  \<open>continue\<close>).\<close>

definition scanChar :: "ScanState \<Rightarrow> nat \<Rightarrow> ScanState" where
  "scanChar st c =
     (let st' =
        (if isEscaped st then st\<lparr>isEscaped := False\<rparr>
         else if c = 92 then st\<lparr>isEscaped := True\<rparr>
         else (let st = (if c = 34 then st\<lparr>inString := (\<not> inString st)\<rparr> else st)
               in if inString st then st else scanOutside st c))
      in st'\<lparr>idx := Suc (idx st')\<rparr>)"

definition scanInit :: ScanState where
  "scanInit = \<lparr>stack = [], inString = False, isEscaped = False, lastValidCharIndex = - 1,
               idx = 0\<rparr>"

definition scan :: "jsstring \<Rightarrow> ScanState" where
  "scan s = foldl scanChar scanInit s"

text \<open>\<open>replace(/,\s*$/, '')\<close>: a comma followed by nothing but whitespace up to the end
  of the text is removed with that whitespace; it is the last comma of the text.\<close>

definition stripTrailingComma :: "jsstring \<Rightarrow> jsstring" where
  "stripTrailingComma s =
     (case dropWhile isJsSpace (rev s) of
        [] \<Rightarrow> s
      | c # r \<Rightarrow> if c = 44 then rev r else s)"

text \<open>\<open>replace(/,\s*([\}\]])/g, '$1')\<close>: every comma that is followed by whitespace and
  a closing brace or bracket goes, with the whitespace; the search goes on after the
  closer. \<open>closerNext\<close> says that the text starts with whitespace and such a closer.\<close>

definition closerNext :: "jsstring \<Rightarrow> bool" where
  "closerNext cs = (take 1 (dropWhile isJsSpace cs) = [125] \<or> take 1 (dropWhile isJsSpace cs) = [93])"

function stripCommasBeforeClosers :: "jsstring \<Rightarrow> jsstring" where
  "stripCommasBeforeClosers [] = []"
| "stripCommasBeforeClosers (c # cs) =
     (if c = 44 \<and> closerNext cs
      then hd (dropWhile isJsSpace cs) # stripCommasBeforeClosers (tl (dropWhile isJsSpace cs))
      else c # stripCommasBeforeClosers cs)"
  by pat_completeness auto
termination
proof (relation "measure length")
  show "wf (measure length)"
    by simp
next
  fix c :: nat and cs :: jsstring
  have "length (tl (dropWhile isJsSpace cs)) \<le> length (dropWhile isJsSpace cs)"
    by simp
  also have "\<dots> \<le> length cs"
    by (rule length_dropWhile_le)
  finally show "(tl (dropWhile isJsSpace cs), c # cs) \<in> measure length"
    by simp
next
  fix c :: nat and cs :: jsstring
  show "(cs, c # cs) \<in> measure length"
    by simp
qed

text \<open>The text that the second \<open>JSON.parse\<close> is tried on: a closing quote when the scan
  ends inside a string, the trailing comma removed, the closers popped off the stack one
  by one, the commas before closers removed.\<close>

definition closeOpen :: "jsstring \<Rightarrow> jsstring" where
  "closeOpen jsonString =
     (let st = scan jsonString;
          jsonString = (if inString st then jsonString @ [34] else jsonString);
          jsonString = stripTrailingComma jsonString
      in jsonString @ stack st)"

definition repairText :: "jsstring \<Rightarrow> jsstring" where
  "repairText jsonString = stripCommasBeforeClosers (closeOpen jsonString)"

datatype error =
    IncompleteOutput
  | TransportError jsstring
  | TypeError

text \<open>Step 5, the repair: the second \<open>try\<close> block, whose \<open>catch\<close> turns the
  \<open>SyntaxError\<close> into the error the parser throws.\<close>

definition repairJson :: "jsstring \<Rightarrow> error + json" where
  "repairJson jsonString =
     (case JSON_parse (repairText jsonString) of
        Some v \<Rightarrow> Inr v
      | None \<Rightarrow> Inl IncompleteOutput)"

definition extractJson :: "jsstring \<Rightarrow> error + json" where
  "extractJson text =
     (let jsonString = cleanText text
      in (case JSON_parse jsonString of
            Some v \<Rightarrow> Inr v
          | None \<Rightarrow> repairJson jsonString))"

text \<open>
  Does the comment pattern match somewhere in the text: a \<open>//\<close> at the start of a line,
  or after a character other than a colon.
\<close>

fun commentStart :: "bool \<Rightarrow> jsstring \<Rightarrow> bool" where
  "commentStart bol [] = False"
| "commentStart bol (c # cs) =
     (if bol \<and> c = 47 \<and> take 1 cs = [47] then True
      else if c \<noteq> 58 \<and> take 2 cs = [47, 47] then True
      else commentStart (isLineTerminator c) cs)"

text \<open>Is the value an array or an object.\<close>

fun isContainer :: "json \<Rightarrow> bool" where
  "isContainer (JArray xs) = True"
| "isContainer (JObject kvs) = True"
| "isContainer _ = False"

text \<open>Two invariants of the automaton, for the proofs below.\<close>

text \<open>A literal in progress has no whitespace to come.\<close>

fun lit_ok :: "pstate \<Rightarrow> bool" where
  "lit_ok (PState fs e (LLit rs v)) = list_all (\<lambda>c. \<not> isJsSpace c) rs"
| "lit_ok _ = True"

text \<open>At top level, with no container open, only a string, a number or a literal is in
  progress or done.\<close>

fun scalar_st :: "pstate \<Rightarrow> bool" where
  "scalar_st PFail = True"
| "scalar_st (PState (f # fs) e l) = False"
| "scalar_st (PState [] (EDone v) LNone) = (\<not> isContainer v)"
| "scalar_st (PState [] e LNone) = False"
| "scalar_st (PState [] e (LLit rs v)) = (\<not> isContainer v)"
| "scalar_st (PState [] e l) = True"

text \<open>A character that is no quote, backslash, brace or bracket leaves the stack and the
  flags of a scan that is not after a backslash as they are.\<close>

definition neutral :: "nat \<Rightarrow> bool" where
  "neutral c = (c \<noteq> 34 \<and> c \<noteq> 92 \<and> c \<noteq> 123 \<and> c \<noteq> 91 \<and> c \<noteq> 125 \<and> c \<noteq> 93)"

text \<open>
  For the repair of a truncated document: the closer of an open container, the value that
  a complete value \<open>v\<close> gives once every container around it is closed as it stands, and
  the value that the open containers give when the innermost is closed with what it
  holds.
\<close>

fun closer :: "frame \<Rightarrow> nat" where
  "closer (FArray xs) = 93"
| "closer (FObject kvs k) = 125"

fun unwind :: "json \<Rightarrow> frame list \<Rightarrow> json option" where
  "unwind v [] = Some v"
| "unwind v (FArray xs # fs) = unwind (JArray (xs @ [v])) fs"
| "unwind v (FObject kvs (Some k) # fs) = unwind (JObject (AList.update k v kvs)) fs"
| "unwind v (FObject kvs None # fs) = None"

fun close_all :: "frame list \<Rightarrow> json option" where
  "close_all [] = None"
| "close_all (FArray xs # fs) = unwind (JArray xs) fs"
| "close_all (FObject kvs None # fs) = unwind (JObject kvs) fs"
| "close_all (FObject kvs (Some k) # fs) = None"

text \<open>
  Where a cut can be repaired, and to what value, by the state of the automaton at the
  cut: inside a string that is a value (not after a backslash or inside a \<open>\u\<close> escape),
  at the end of a number that may end there, after an opening brace or bracket, after a
  complete value inside a container, or after the comma that follows one. Nowhere else:
  not inside a key, after a key or a colon, inside a literal name, or in an escape.
\<close>

fun after_array_comma :: "expect \<Rightarrow> frame list \<Rightarrow> bool" where
  "after_array_comma EValue (FArray xs # fs) = True"
| "after_array_comma _ _ = False"

fun recovered :: "pstate \<Rightarrow> json option" where
  "recovered PFail = None"
| "recovered (PState fs e (LStr acc)) = (if wants_value e then unwind (JString acc) fs else None)"
| "recovered (PState fs e (LNum ns lx)) = (if num_final ns then unwind (JNumber lx) fs else None)"
| "recovered (PState fs e LNone) =
     (if may_close e \<or> e = EKey \<or> after_array_comma e fs then close_all fs else None)"
| "recovered (PState fs e _) = None"

text \<open>Does a comma stand before a closing brace or bracket, whitespace apart: the
  pattern of the last cleaning step.\<close>

fun commaBeforeCloser :: "jsstring \<Rightarrow> bool" where
  "commaBeforeCloser [] = False"
| "commaBeforeCloser (c # cs) =
     (if c = 44 \<and> closerNext cs then True else commaBeforeCloser cs)"

text \<open>The scan and the automaton agree on the open containers and on being inside a
  string, as long as the automaton has not failed.\<close>

fun in_str :: "lexstate \<Rightarrow> bool" where
  "in_str (LStr acc) = True"
| "in_str (LEsc acc) = True"
| "in_str (LUni acc hs) = True"
| "in_str _ = False"

fun is_esc :: "lexstate \<Rightarrow> bool" where
  "is_esc (LEsc acc) = True"
| "is_esc _ = False"

fun lit_neutral :: "lexstate \<Rightarrow> bool" where
  "lit_neutral (LLit rs v) = list_all neutral rs"
| "lit_neutral _ = True"

fun corr :: "pstate \<Rightarrow> ScanState \<Rightarrow> bool" where
  "corr PFail sc = True"
| "corr (PState fs e l) sc =
     (stack sc = map closer fs \<and> inString sc = in_str l \<and> isEscaped sc = is_esc l
      \<and> lit_neutral l)"

text \<open>Does the text end with a comma, whitespace apart.\<close>

definition endsWithComma :: "jsstring \<Rightarrow> bool" where
  "endsWithComma s = (take 1 (dropWhile isJsSpace (rev s)) = [44])"

text \<open>Two more invariants of the automaton: a colon is awaited only inside an object, and
  a literal name in progress has neither whitespace nor a comma to come.\<close>

fun colon_top :: "expect \<Rightarrow> frame list \<Rightarrow> bool" where
  "colon_top EColon (FObject kvs k # fs) = True"
| "colon_top EColon _ = False"
| "colon_top _ _ = True"

fun lit_plain :: "lexstate \<Rightarrow> bool" where
  "lit_plain (LLit rs v) = list_all (\<lambda>c. \<not> isJsSpace c \<and> c \<noteq> 44) rs"
| "lit_plain _ = True"

fun plain_state :: "pstate \<Rightarrow> bool" where
  "plain_state PFail = True"
| "plain_state (PState fs e l) = (colon_top e fs \<and> lit_plain l)"

text \<open>How the automaton comes to stand between two tokens.\<close>

definition arrives :: "pstate \<Rightarrow> nat \<Rightarrow> frame list \<Rightarrow> expect \<Rightarrow> bool" where
  "arrives st c fs e =
     ((isJsonWs c \<and> st = PState fs e LNone)
      \<or> (isJsonWs c \<and> e \<noteq> EKey \<and> \<not> after_array_comma e fs
          \<and> (\<exists>fs0 e0 ns lx. st = PState fs0 e0 (LNum ns lx) \<and> num_final ns
                \<and> push_value (JNumber lx) fs0 = PState fs e LNone))
      \<or> (c = 44 \<and> \<not> may_close e
          \<and> (st = PState fs ECommaOrEnd LNone
              \<or> (\<exists>fs0 e0 ns lx. st = PState fs0 e0 (LNum ns lx) \<and> num_final ns
                    \<and> push_value (JNumber lx) fs0 = PState fs ECommaOrEnd LNone)))
      \<or> (\<not> isJsSpace c \<and> c \<noteq> 44 \<and> e \<noteq> EKey \<and> \<not> after_array_comma e fs))"

section \<open>The plan decoder (geminiService.ts, generateTravelPlan)\<close>

text \<open>The parameters of a generation request (\<open>start\<close>, \<open>end\<close>, \<open>days\<close> and the others,
  here with the prefix \<open>param_\<close>).\<close>

record GenParams =
  param_start :: jsstring
  param_end :: jsstring
  param_startTime :: jsstring
  param_endTime :: jsstring
  param_days :: int
  param_travelers :: int
  param_isRoundTrip :: bool
  param_pacing :: Pacing
  param_includeAccom :: bool
  param_accommodationType :: AccommodationType
  param_hotelBudget :: int
  param_mustVisit :: "jsstring list option"
  param_avoid :: "jsstring list option"

text \<open>
  The object that \<open>generateTravelPlan\<close> returns. Its \<open>title\<close> and \<open>days\<close> come out of the
  parsed reply unchecked, so they are JSON values; the spread \<open>...params\<close> is the field
  \<open>gen_params\<close>.
\<close>

record GeneratedPlan =
  gen_id :: jsstring
  gen_params :: GenParams
  gen_startPoint :: jsstring
  gen_endPoint :: jsstring
  gen_title :: json
  gen_durationDays :: int
  gen_days :: json

text \<open>Reading a property of a parsed value: \<open>null.k\<close> throws a \<open>TypeError\<close>, an object
  gives its member or \<open>undefined\<close>; the other values have no member \<open>title\<close> or \<open>days\<close>.\<close>

fun getProp :: "json \<Rightarrow> jsstring \<Rightarrow> error + json option" where
  "getProp JNull k = Inl TypeError"
| "getProp (JObject kvs) k = Inr (map_of kvs k)"
| "getProp _ k = Inr None"

text \<open>
  The number that \<open>JSON.parse\<close> makes of a number literal is the double nearest to its
  decimal value, ties to even. For the conditions of the code only one thing about it
  matters, whether it is zero: it is when the value \<open>m * 10 ^ k\<close> of the literal, \<open>m\<close> the
  digits of its integer and fraction parts and \<open>k\<close> its exponent less the number of
  fraction digits, is at most \<open>2 ^ - 1075\<close>, half the least positive double (\<open>0\<close>, \<open>-0.0\<close>,
  \<open>0e5\<close>, and also \<open>1e-400\<close>).
\<close>

definition notExp :: "nat \<Rightarrow> bool" where
  "notExp c = (c \<noteq> 101 \<and> c \<noteq> 69)"

text \<open>The digits of the integer and fraction parts, as a natural number.\<close>

definition mantissa :: "jsstring \<Rightarrow> int" where
  "mantissa lx = parseInt10 (filter isDigit (takeWhile notExp lx))"

text \<open>The number of digits after the decimal point.\<close>

definition fractionDigits :: "jsstring \<Rightarrow> nat" where
  "fractionDigits lx = length (drop 1 (dropWhile (\<lambda>c. c \<noteq> 46) (takeWhile notExp lx)))"

text \<open>The exponent after \<open>e\<close> or \<open>E\<close>, with its sign; 0 when there is none.\<close>

definition exponent :: "jsstring \<Rightarrow> int" where
  "exponent lx =
     (case drop 1 (dropWhile notExp lx) of
        [] \<Rightarrow> 0
      | c # cs \<Rightarrow> if c = 45 then - parseInt10 cs
                  else if c = 43 then parseInt10 cs
                  else parseInt10 (c # cs))"

definition numberIsZero :: "jsstring \<Rightarrow> bool" where
  "numberIsZero lx =
     (let m = mantissa lx; k = exponent lx - int (fractionDigits lx)
      in m = 0 \<or> (k < 0 \<and> m * 2 ^ 1075 \<le> 10 ^ nat (- k)))"

text \<open>A value used as a condition: \<open>undefined\<close>, \<open>null\<close>, \<open>false\<close>, a number that is zero
  and the empty string are falsy, everything else is truthy.\<close>

fun truthy :: "json option \<Rightarrow> bool" where
  "truthy None = False"
| "truthy (Some JNull) = False"
| "truthy (Some (JBool b)) = b"
| "truthy (Some (JNumber lx)) = (\<not> numberIsZero lx)"
| "truthy (Some (JString s)) = (s \<noteq> [])"
| "truthy (Some (JArray xs)) = True"
| "truthy (Some (JObject kvs)) = True"

text \<open>\<open>a || b\<close>.\<close>

definition orElse :: "json option \<Rightarrow> json \<Rightarrow> json" where
  "orElse a b = (if truthy a then the a else b)"

text \<open>\<open>Number.prototype.toString\<close> on a natural number.\<close>

function decimal :: "nat \<Rightarrow> jsstring" where
  "decimal n = (if n < 10 then [48 + n] else decimal (n div 10) @ [48 + n mod 10])"
  by pat_completeness auto
termination
  by (relation "measure (\<lambda>n. n)") auto

declare decimal.simps [simp del]

text \<open>The fallback title: start, \<open>" - "\<close>, end, a space and four Chinese characters.\<close>

definition fallbackTitle :: "jsstring \<Rightarrow> jsstring \<Rightarrow> jsstring" where
  "fallbackTitle s e = s @ [32, 45, 32] @ e @ [32, 0x6DF1, 0x5EA6, 0x81EA, 0x9A7E]"

text \<open>
  \<open>generateTravelPlan\<close>. The model call is outside the program: \<open>response\<close> is what
  \<open>callOpenAICompatible\<close> gave, an error or the reply text, and \<open>now\<close> is \<open>Date.now()\<close>.
  Every error propagates.
\<close>

definition generateTravelPlan :: "GenParams \<Rightarrow> nat \<Rightarrow> error + jsstring \<Rightarrow> error + GeneratedPlan" where
  "generateTravelPlan params now response =
     (case response of
        Inl e \<Rightarrow> Inl e
      | Inr responseText \<Rightarrow>
          (case extractJson responseText of
             Inl e \<Rightarrow> Inl e
           | Inr data \<Rightarrow>
               (case getProp data (js ''title'') of
                  Inl e \<Rightarrow> Inl e
                | Inr t \<Rightarrow>
                    (case getProp data (js ''days'') of
                       Inl e \<Rightarrow> Inl e
                     | Inr d \<Rightarrow>
                         Inr \<lparr>gen_id = decimal now,
                              gen_params = params,
                              gen_startPoint = param_start params,
                              gen_endPoint = param_end params,
                              gen_title = orElse t (JString (fallbackTitle (param_start params)
                                                                (param_end params))),
                              gen_durationDays = param_days params,
                              gen_days = orElse d (JArray [])\<rparr>))))"

text \<open>The number of entries of a JSON array.\<close>

fun arrayLength :: "json \<Rightarrow> nat option" where
  "arrayLength (JArray xs) = Some (length xs)"
| "arrayLength _ = None"

section \<open>The enrichment scheduler (prefetchAlternatives)\<close>

text \<open>Reading a list at an index: \<open>undefined\<close> out of range.\<close>

definition nth_opt :: "'a list \<Rightarrow> nat \<Rightarrow> 'a option" where
  "nth_opt xs i = (if i < length xs then Some (xs ! i) else None)"

text \<open>
  The function handed to \<open>setPlan\<close> when a task has its alternatives: from the latest
  plan (\<open>null\<close> is \<open>None\<close>) to the next one.
\<close>

definition mergeAlternatives :: "nat \<Rightarrow> nat \<Rightarrow> json list \<Rightarrow> TravelPlan option \<Rightarrow> TravelPlan option" where
  "mergeAlternatives dIdx pIdx alts prevPlan =
     (case prevPlan of
        None \<Rightarrow> None
      | Some prev \<Rightarrow>
          (let newDays = days prev;
               newDays =
                 (case nth_opt newDays dIdx of
                    None \<Rightarrow> newDays
                  | Some d \<Rightarrow>
                      (case nth_opt (points d) pIdx of
                         None \<Rightarrow> newDays
                       | Some pt \<Rightarrow>
                           (let newPoints = points d;
                                newPoints = newPoints[pIdx := pt\<lparr>alternatives := Some alts\<rparr>]
                            in newDays[dIdx := d\<lparr>points := newPoints\<rparr>])))
           in Some (prev\<lparr>days := newDays\<rparr>)))"

text \<open>
  One enrichment task, once \<open>getAlternativePoints\<close> has returned or thrown: on success
  the merge, on failure the \<open>catch\<close> of the task, which logs a warning and leaves the
  plan alone. The state is the plan cell and the warnings logged.
\<close>

definition enrichTask :: "nat \<Rightarrow> nat \<Rightarrow> error + json list \<Rightarrow> TravelPlan option \<times> error list
    \<Rightarrow> TravelPlan option \<times> error list" where
  "enrichTask dIdx pIdx result st =
     (case result of
        Inr alts \<Rightarrow> (mergeAlternatives dIdx pIdx alts (fst st), snd st)
      | Inl err \<Rightarrow> (fst st, snd st @ [err]))"

text \<open>The merges of a list of finished tasks, in the order in which they complete.\<close>

definition mergeAll :: "((nat \<times> nat) \<times> json list) list \<Rightarrow> TravelPlan option \<Rightarrow> TravelPlan option" where
  "mergeAll ts plan = foldl (\<lambda>pl t. mergeAlternatives (fst (fst t)) (snd (fst t)) (snd t) pl) plan ts"

text \<open>
  What the claim expects of the merges: every point whose coordinate has a result gets
  that result as its alternatives, and nothing else changes.
\<close>

definition enumerate_from0 :: "'a list \<Rightarrow> (nat \<times> 'a) list" where
  "enumerate_from0 xs = zip [0..<length xs] xs"

definition withAlternatives :: "(nat \<times> nat \<rightharpoonup> json list) \<Rightarrow> TravelPlan \<Rightarrow> TravelPlan" where
  "withAlternatives f p =
     p\<lparr>days := map (\<lambda>(d, dy).
          dy\<lparr>points := map (\<lambda>(i, pt).
               (case f (d, i) of
                  None \<Rightarrow> pt
                | Some alts \<Rightarrow> pt\<lparr>alternatives := Some alts\<rparr>))
             (enumerate_from0 (points dy))\<rparr>)
        (enumerate_from0 (days p))\<rparr>"

text \<open>Does the plan have a point at the coordinate.\<close>

definition hasPoint :: "TravelPlan \<Rightarrow> nat \<Rightarrow> nat \<Rightarrow> bool" where
  "hasPoint p dIdx pIdx = (dIdx < length (days p) \<and> pIdx < length (points (days p ! dIdx)))"

section \<open>The request queue (RequestQueue)\<close>

text \<open>
  The program runs on one thread: code runs without interruption from one \<open>await\<close> to
  the next, and a task started by \<open>fn()\<close> is in flight until its promise settles. So the
  queue is a state machine with two kinds of event: a call of \<open>add\<close>, and the settling of
  the promise of a task in flight, which resumes \<open>process\<close> after its \<open>await\<close>. A task
  is any value of a type \<open>'a\<close>; how its promise settles is given with the event.

  Besides the fields \<open>queue\<close> and \<open>activeCount\<close> of the class, the state records what
  the claims speak about: the tasks in flight, the tasks in the order in which they were
  started, the tasks in the order in which they settled, and what \<open>console.error\<close> was
  given.
\<close>

datatype outcome = Fulfilled | Rejected error

record 'a RequestQueue =
  queue :: "'a list"
  activeCount :: int
  running :: "'a list"
  started :: "'a list"
  finished :: "'a list"
  errorLog :: "error list"

definition maxConcurrent :: int where
  "maxConcurrent = 2"

definition emptyQueue :: "'a RequestQueue" where
  "emptyQueue = \<lparr>queue = [], activeCount = 0, running = [], started = [], finished = [],
                  errorLog = []\<rparr>"

text \<open>\<open>process\<close> up to its \<open>await\<close>: the guard, the increment, the \<open>shift\<close> and the
  call \<open>fn()\<close> that puts the task in flight. (\<open>shift\<close> on an empty queue would give
  \<open>undefined\<close>, and \<open>if (fn)\<close> would skip the rest.)\<close>

definition process :: "'a RequestQueue \<Rightarrow> 'a RequestQueue" where
  "process q =
     (if activeCount q \<ge> maxConcurrent \<or> queue q = [] then q
      else (let q = q\<lparr>activeCount := activeCount q + 1\<rparr>
            in (case queue q of
                  [] \<Rightarrow> q
                | fn # rest \<Rightarrow>
                    q\<lparr>queue := rest, running := running q @ [fn], started := started q @ [fn]\<rparr>)))"

definition add :: "'a \<Rightarrow> 'a RequestQueue \<Rightarrow> 'a RequestQueue" where
  "add fn q = process (q\<lparr>queue := queue q @ [fn]\<rparr>)"

text \<open>\<open>try\<close>, \<open>catch\<close>, \<open>finally\<close> over a state: the handler gets the error of the body,
  the final block runs after either, and only an error of the handler leaves the
  statement.\<close>

definition try_catch_finally ::
    "('s \<Rightarrow> error + 's) \<Rightarrow> (error \<Rightarrow> 's \<Rightarrow> error + 's) \<Rightarrow> ('s \<Rightarrow> 's) \<Rightarrow> 's \<Rightarrow> error + 's" where
  "try_catch_finally body handler final s =
     (case body s of
        Inr s' \<Rightarrow> Inr (final s')
      | Inl e \<Rightarrow>
          (case handler e s of
             Inr s' \<Rightarrow> Inr (final s')
           | Inl e' \<Rightarrow> Inl e'))"

text \<open>
  \<open>process\<close> from its \<open>await\<close> on, when the promise of \<open>fn\<close> has settled: a rejection
  is thrown by the \<open>await\<close> and caught, the handler gives it to \<open>console.error\<close>, and
  the final block decrements the count and calls \<open>process\<close> again. The result is what the
  promise of \<open>process\<close> itself settles with.
\<close>

definition resume :: "'a \<Rightarrow> outcome \<Rightarrow> 'a RequestQueue \<Rightarrow> error + 'a RequestQueue" where
  "resume fn out =
     try_catch_finally
       (\<lambda>q. case out of Fulfilled \<Rightarrow> Inr q | Rejected e \<Rightarrow> Inl e)
       (\<lambda>e q. Inr (q\<lparr>errorLog := errorLog q @ [e]\<rparr>))
       (\<lambda>q. process (q\<lparr>activeCount := activeCount q - 1,
                         running := remove1 fn (running q),
                         finished := finished q @ [fn]\<rparr>))"

datatype 'a event = Add 'a | Settle 'a outcome

text \<open>One event. Only a task in flight can settle; \<open>None\<close> says that the event cannot
  happen in this state, or that \<open>process\<close> ended with an error of its own.\<close>

fun fire :: "'a event \<Rightarrow> 'a RequestQueue \<Rightarrow> 'a RequestQueue option" where
  "fire (Add fn) q = Some (add fn q)"
| "fire (Settle fn out) q =
     (if fn \<in> set (running q)
      then (case resume fn out q of Inr q' \<Rightarrow> Some q' | Inl e \<Rightarrow> None)
      else None)"

fun exec :: "'a event list \<Rightarrow> 'a RequestQueue \<Rightarrow> 'a RequestQueue option" where
  "exec [] q = Some q"
| "exec (ev # evs) q = (case fire ev q of None \<Rightarrow> None | Some q' \<Rightarrow> exec evs q')"

text \<open>The tasks given to \<open>add\<close> in a sequence of events, in order.\<close>

fun submitted :: "'a event list \<Rightarrow> 'a list" where
  "submitted [] = []"
| "submitted (Add fn # evs) = fn # submitted evs"
| "submitted (Settle fn out # evs) = submitted evs"

fun isSettle :: "'a event \<Rightarrow> bool" where
  "isSettle (Settle fn out) = True"
| "isSettle (Add fn) = False"

text \<open>The tasks that are waiting or in flight.\<close>

definition pending :: "'a RequestQueue \<Rightarrow> nat" where
  "pending q = length (queue q) + length (running q)"

text \<open>The invariant of the queue: the count is the number of tasks in flight, at most
  \<open>maxConcurrent\<close>, a task waits only while \<open>maxConcurrent\<close> tasks are in flight, and
  every task that was started is in flight or has settled, once.\<close>

definition queue_inv :: "'a RequestQueue \<Rightarrow> bool" where
  "queue_inv q =
     (activeCount q = int (length (running q))
      \<and> activeCount q \<le> maxConcurrent
      \<and> (queue q = [] \<or> activeCount q = maxConcurrent)
      \<and> mset (finished q) + mset (running q) = mset (started q))"

text \<open>Concrete inputs used below.\<close>

definition yen20 :: jsstring where
  "yen20 = [0xA5, 50, 48]"

definition samplePoint :: LocationPoint where
  "samplePoint = \<lparr>point_id = js ''p1'', name = js ''P'', ptype = Parking, time = js ''09:00'',
     duration = js ''1h'', ticket_price = Some yen20, average_cost = None,
     description = [], rating = 4, user_ratings_total = 10, arrivalTime = js ''09:00'',
     travelTimeToNext = None, lat = 30, lng = 120, photo_url = None, address = None,
     alternatives = None, reviews = None, photos = None\<rparr>"

definition samplePlan :: "LocationPoint list \<Rightarrow> TravelPlan" where
  "samplePlan pts = \<lparr>plan_id = js ''1'', title = js ''t'', startPoint = js ''A'',
     endPoint = js ''B'', startTime = [], endTime = [], durationDays = 1, travelers = 1,
     isRoundTrip = False, pacing = MODERATE, includeAccom = False,
     accommodationType = HOTEL, hotelBudget = 500, mustVisit = None, avoid = None,
     days = [\<lparr>day = 1, date = [], transportation_cost = None, points = pts\<rparr>]\<rparr>"

definition sampleParams :: GenParams where
  "sampleParams = \<lparr>param_start = js ''A'', param_end = js ''B'', param_startTime = [],
     param_endTime = [], param_days = 3, param_travelers = 2, param_isRoundTrip = True,
     param_pacing = MODERATE, param_includeAccom = True, param_accommodationType = HOTEL,
     param_hotelBudget = 500, param_mustVisit = None, param_avoid = None\<rparr>"

definition sampleTasks :: "((nat \<times> nat) \<times> json list) list" where
  "sampleTasks = [((0, 0), [JNull]), ((0, 1), [])]"

definition sampleEvents :: "nat event list" where
  "sampleEvents = [Add 1, Add 2, Add 3, Add 4, Settle 2 (Rejected TypeError)]"

section \<open>Properties of the cost aggregation\<close>

lemma parsePrice_yen20: "parsePrice (Some yen20) = 20"
  by (simp add: parsePrice_def yen20_def firstDigitRun_def isDigit_def parseInt10_def)

lemma charged_None: "charged None = False"
  by (simp add: charged_def)

lemma charged_yen20: "charged (Some yen20)"
  by (simp add: charged_def yen20_def free_marker_def)

text \<open>
  C1. A parking point whose ticket price is the yen sign followed by 20, with no average
  cost, does not cost a flat 20: step 1 charges the ticket price once per traveler and
  step 3 adds it once more, so the point costs \<open>20 * T + 20\<close>.
\<close>

theorem calculatePointCost_parking_yen20:
  "calculatePointCost (pt\<lparr>ptype := Parking, ticket_price := Some yen20, average_cost := None\<rparr>) T
     = 20 * T + 20"
proof -
  have ne: "yen20 \<noteq> []" by (simp add: yen20_def)
  show ?thesis
    by (simp add: calculatePointCost_def charged_yen20 charged_None parsePrice_yen20 ne)
qed

theorem calculatePointCost_parking_yen20_witness:
  "calculatePointCost samplePoint 3 = 80 \<and> calculatePointCost samplePoint 3 \<noteq> 20"
  using calculatePointCost_parking_yen20 [of samplePoint 3]
  by (simp add: samplePoint_def)

lemma addPointCost_gap:
  "total (addPointCost trav acc pt) - bucket_sum (addPointCost trav acc pt)
     = total acc - bucket_sum acc + unbucketed trav [pt]"
  by (cases "ptype pt") (simp_all add: addPointCost_def bucket_sum_def unbucketed_def Let_def)

lemma foldl_addPointCost_gap:
  "total (foldl (addPointCost trav) acc pts) - bucket_sum (foldl (addPointCost trav) acc pts)
     = total acc - bucket_sum acc + unbucketed trav pts"
proof (induction pts arbitrary: acc)
  case Nil
  show ?case by (simp add: unbucketed_def)
next
  case (Cons pt pts)
  have "unbucketed trav (pt # pts) = unbucketed trav [pt] + unbucketed trav pts"
    by (simp add: unbucketed_def)
  with Cons [of "addPointCost trav acc pt"] addPointCost_gap [of trav acc pt]
  show ?case by simp
qed

lemma addDayCost_gap:
  "total (addDayCost trav acc d) - bucket_sum (addDayCost trav acc d)
     = total acc - bucket_sum acc + unbucketed trav (points d)"
  by (simp add: addDayCost_def Let_def foldl_addPointCost_gap) (simp add: bucket_sum_def)

lemma foldl_addDayCost_gap:
  "total (foldl (addDayCost trav) acc ds) - bucket_sum (foldl (addDayCost trav) acc ds)
     = total acc - bucket_sum acc + unbucketed trav (concat (map points ds))"
proof (induction ds arbitrary: acc)
  case Nil
  show ?case by (simp add: unbucketed_def)
next
  case (Cons d ds)
  have "unbucketed trav (concat (map points (d # ds)))
          = unbucketed trav (points d) + unbucketed trav (concat (map points ds))"
    by (simp add: unbucketed_def)
  with Cons [of "addDayCost trav acc d"] addDayCost_gap [of trav acc d]
  show ?case by simp
qed

lemma calculateTotalCost_gap:
  "total (calculateTotalCost p)
     = bucket_sum (calculateTotalCost p) + unbucketed (travelers p) (concat (map points (days p)))"
  using foldl_addDayCost_gap [of "travelers p"
      "\<lparr>total = 0, transport = 0, accom = 0, dining = 0, tickets = 0\<rparr>" "days p"]
  by (simp add: calculateTotalCost_def bucket_sum_def)

text \<open>
  C9. The grand total is not always the sum of the four buckets: a point of type \<open>start\<close>
  with a ticket price is counted in the total and in no bucket. For one traveler and one
  such point priced 20, the total is 20 and the buckets sum to 0.
\<close>

theorem calculateTotalCost_start_point_outside_buckets:
  "total (calculateTotalCost (samplePlan [samplePoint\<lparr>ptype := Start\<rparr>])) = 20
   \<and> transport (calculateTotalCost (samplePlan [samplePoint\<lparr>ptype := Start\<rparr>]))
     + accom (calculateTotalCost (samplePlan [samplePoint\<lparr>ptype := Start\<rparr>]))
     + dining (calculateTotalCost (samplePlan [samplePoint\<lparr>ptype := Start\<rparr>]))
     + tickets (calculateTotalCost (samplePlan [samplePoint\<lparr>ptype := Start\<rparr>])) = 0"
proof -
  have ne: "yen20 \<noteq> []" by (simp add: yen20_def)
  have c: "calculatePointCost (samplePoint\<lparr>ptype := Start\<rparr>) 1 = 20"
    by (simp add: calculatePointCost_def samplePoint_def charged_yen20 charged_None
        parsePrice_yen20)
  show ?thesis
    by (simp add: calculateTotalCost_def samplePlan_def addDayCost_def addPointCost_def c
        Let_def)
qed

section \<open>Properties of the parser\<close>

lemmas parse_eval = JSON_parse_def run_def struct_step_def isJsonWs_def isDigit_def
  hexval_def unescape_def

lemmas extract_eval = extractJson_def cleanText_def trim_def isJsSpace_def
  isLineTerminator_def codeBlockMatch_def fence_def fromFirstOpen_def repairJson_def
  repairText_def closeOpen_def scan_def scanChar_def scanOutside_def scanInit_def
  stripTrailingComma_def closerNext_def Let_def

subsection \<open>Comment removal\<close>

lemma stripComments_unchanged:
  "\<not> commentStart bol s \<Longrightarrow> stripComments bol s = s"
  by (induction bol s rule: stripComments.induct) (auto split: if_splits)

lemma dropWhile_no_lt:
  "\<forall>c\<in>set rest. \<not> isLineTerminator c \<Longrightarrow>
     dropWhile (\<lambda>x. \<not> isLineTerminator x) rest = []"
  by (induction rest) auto

lemma stripComments_removes:
  assumes "\<not> commentStart bol pre"
    and "pre = [] \<longrightarrow> bol"
    and "pre \<noteq> [] \<longrightarrow> last pre \<noteq> 58 \<and> last pre \<noteq> 47"
    and "\<forall>c\<in>set rest. \<not> isLineTerminator c"
  shows "stripComments bol (pre @ [47, 47] @ rest) = pre"
  using assms
proof (induction pre arbitrary: bol)
  case Nil
  then show ?case by (simp add: dropWhile_no_lt)
next
  case (Cons c pre)
  show ?case
  proof (cases "pre = []")
    case True
    with Cons.prems show ?thesis by (simp add: dropWhile_no_lt)
  next
    case False
    then obtain d pre' where p: "pre = d # pre'" by (cases pre) auto
    define t where "t = pre @ [47, 47] @ rest"
    have nc: "\<not> commentStart (isLineTerminator c) pre"
      using Cons.prems(1) by (simp split: if_splits)
    have ih: "stripComments (isLineTerminator c) t = pre"
      unfolding t_def using Cons.IH [OF nc] False Cons.prems by simp
    have a: "\<not> (bol \<and> c = 47 \<and> take 1 t = [47])"
      unfolding t_def using Cons.prems(1) p by (auto split: if_splits)
    have b: "\<not> (c \<noteq> 58 \<and> take 2 t = [47, 47])"
    proof (cases pre')
      case Nil
      with p Cons.prems(3) show ?thesis unfolding t_def by simp
    next
      case (Cons e pre'')
      with p Cons.prems(1) show ?thesis unfolding t_def by (auto split: if_splits)
    qed
    have "stripComments bol (c # t) = c # stripComments (isLineTerminator c) t"
      by (subst stripComments.simps) (simp only: a b if_False)
    with ih have "stripComments bol (c # t) = c # pre" by simp
    then show ?thesis unfolding t_def by simp
  qed
qed

text \<open>
  C3. The comment removal of the code does not follow string or escape state: it is one
  pattern, which lets a \<open>//\<close> stand only after a colon. On the document \<open>{"a":"b//c"}\<close>
  the \<open>//\<close> lies inside the quoted value \<open>"b//c"\<close>, and the step removes it with the rest
  of the line, closing quote and brace included; the parser then repairs what is left and
  returns \<open>{"a":"b"}\<close>, where a plain decode of the document gives \<open>{"a":"b//c"}\<close>. The
  text of the comment step of the parser is \<open>stripComments True\<close>.
\<close>

theorem stripComments_cuts_quoted_value:
  \<open>stripComments True (js ''{"a":"b//c"}'') = js ''{"a":"b''
   \<and> JSON_parse (js ''{"a":"b//c"}'') = Some (JObject [(js ''a'', JString (js ''b//c''))])
   \<and> extractJson (js ''{"a":"b//c"}'') = Inr (JObject [(js ''a'', JString (js ''b''))])\<close>
  by (simp add: js_def parse_eval extract_eval)

text \<open>A \<open>//\<close> directly after a colon is kept, inside a string or not.\<close>

lemma stripComments_keeps_url:
  \<open>stripComments True (js ''{"u":"http://x"}'') = js ''{"u":"http://x"}''\<close>
  by (simp add: js_def isLineTerminator_def)

subsection \<open>Whitespace around a document\<close>

text \<open>Whitespace is no token character.\<close>

lemma space_range: "isJsSpace c \<Longrightarrow> (9 \<le> c \<and> c \<le> 13) \<or> c = 32 \<or> 160 \<le> c"
  by (auto simp: isJsSpace_def)

lemma space_chars:
  assumes "isJsSpace c"
  shows "c \<noteq> 34" "c \<noteq> 91" "c \<noteq> 123" "c \<noteq> 93" "c \<noteq> 125" "c \<noteq> 44" "c \<noteq> 58"
    "c \<noteq> 116" "c \<noteq> 102" "c \<noteq> 110" "c \<noteq> 45" "c \<noteq> 48" "\<not> isDigit c" "c \<noteq> 92" "c \<noteq> 117"
    "c \<noteq> 46" "c \<noteq> 101" "c \<noteq> 69" "c \<noteq> 43" "c \<noteq> 47" "c \<noteq> 96"
    "hexval c = None" "unescape c = None"
  using space_range [OF assms] by (auto simp: isDigit_def hexval_def unescape_def)

lemma jsonWs_space: "isJsonWs c \<Longrightarrow> isJsSpace c"
  by (auto simp: isJsonWs_def isJsSpace_def)

lemma struct_step_space:
  "isJsSpace c \<Longrightarrow> struct_step fs e c = (if isJsonWs c then PState fs e LNone else PFail)"
  by (simp add: struct_step_def space_chars)

lemma num_next_space: "isJsSpace c \<Longrightarrow> num_next ns c = None"
  by (cases ns) (simp_all add: space_chars)

lemma foldl_step_PFail [simp]: "foldl step PFail s = PFail"
  by (induction s) simp_all

lemma finish_PFail [simp]: "finish PFail = None"
  by simp

lemma lit_ok_push_value [simp]: "lit_ok (push_value v fs)"
  by (induction v fs rule: push_value.induct) simp_all

lemma lit_ok_string_done [simp]: "lit_ok (string_done fs e s)"
  by (induction fs e s rule: string_done.induct) simp_all

lemma lit_ok_close_array [simp]: "lit_ok (close_array fs)"
  by (induction fs rule: close_array.induct) simp_all

lemma lit_ok_close_object [simp]: "lit_ok (close_object fs)"
  by (induction fs rule: close_object.induct) simp_all

lemma lit_ok_after_comma [simp]: "lit_ok (after_comma fs)"
  by (induction fs rule: after_comma.induct) simp_all

lemma lit_ok_struct_step [simp]: "lit_ok (struct_step fs e c)"
  by (simp add: struct_step_def isJsSpace_def)

lemma lit_ok_lex_step: "lit_ok (PState fs e l) \<Longrightarrow> lit_ok (lex_step fs e l c)"
proof (induction fs e l c rule: lex_step.induct)
  case (5 fs e ns lx c)
  show ?case
    by (cases "push_value (JNumber lx) fs") (simp_all split: option.splits)
qed (simp_all split: option.splits)

lemma lit_ok_step: "lit_ok st \<Longrightarrow> lit_ok (step st c)"
  by (cases st) (simp_all add: lit_ok_lex_step)

lemma lit_ok_foldl: "lit_ok st \<Longrightarrow> lit_ok (foldl step st s)"
  by (induction s arbitrary: st) (simp_all add: lit_ok_step)

lemma lit_ok_run: "lit_ok (run s)"
  unfolding run_def by (rule lit_ok_foldl) simp

lemma finish_step_space:
  assumes "lit_ok st" and "isJsSpace c" and "finish (step st c) = Some v"
  shows "finish st = Some v"
proof (cases st)
  case PFail
  with assms show ?thesis by simp
next
  case (PState fs e l)
  show ?thesis
  proof (cases l)
    case LNone
    with PState assms show ?thesis
      by (simp add: struct_step_space split: if_splits)
  next
    case (LStr acc)
    with PState assms show ?thesis
      by (simp add: space_chars split: if_splits)
  next
    case (LEsc acc)
    with PState assms show ?thesis
      by (simp add: space_chars)
  next
    case (LUni acc hs)
    with PState assms show ?thesis
      by (simp add: space_chars)
  next
    case (LNum ns lx)
    show ?thesis
    proof (cases fs)
      case Nil
      with PState LNum assms show ?thesis
        by (simp add: num_next_space struct_step_space split: if_splits)
    next
      case (Cons f fs')
      have "finish (struct_step fs2 e2 c) = None" if "fs2 \<noteq> []" for fs2 e2
        using that assms(2) by (cases fs2) (simp_all add: struct_step_space)
      moreover have "push_value (JNumber lx) (f # fs') = PFail
          \<or> (\<exists>fs2 e2. fs2 \<noteq> [] \<and> push_value (JNumber lx) (f # fs') = PState fs2 e2 LNone)"
      proof (cases f)
        case (FArray xs)
        then show ?thesis by simp
      next
        case (FObject kvs k)
        then show ?thesis by (cases k) simp_all
      qed
      ultimately show ?thesis
        using PState LNum Cons assms by (auto simp: num_next_space split: if_splits)
    qed
  next
    case (LLit rs w)
    with PState assms show ?thesis
      by (cases rs) (auto split: if_splits)
  qed
qed

lemma finish_foldl_spaces:
  assumes "lit_ok st" and "list_all isJsSpace w" and "finish (foldl step st w) = Some v"
  shows "finish st = Some v"
  using assms
proof (induction w arbitrary: st)
  case Nil
  then show ?case by simp
next
  case (Cons c w)
  from Cons.prems have "finish (foldl step (step st c) w) = Some v" by simp
  with Cons.IH [OF lit_ok_step [OF Cons.prems(1)]] Cons.prems(2)
  have "finish (step st c) = Some v" by simp
  with finish_step_space [OF Cons.prems(1), of c v] Cons.prems(2) show ?case by simp
qed

lemma JSON_parse_trailing:
  assumes "list_all isJsSpace w" and "JSON_parse (s @ w) = Some v"
  shows "JSON_parse s = Some v"
  using finish_foldl_spaces [OF lit_ok_run assms(1), of s v] assms(2)
  by (simp add: JSON_parse_def run_def)

lemma JSON_parse_leading:
  assumes "JSON_parse s = Some v"
  shows "JSON_parse (dropWhile isJsSpace s) = Some v"
  using assms
proof (induction s)
  case Nil
  then show ?case by simp
next
  case (Cons c s)
  show ?case
  proof (cases "isJsSpace c")
    case False
    with Cons.prems show ?thesis by simp
  next
    case True
    have "step (PState [] EValue LNone) c = (if isJsonWs c then PState [] EValue LNone else PFail)"
      using True by (simp add: struct_step_space)
    with Cons.prems have "JSON_parse s = Some v"
      by (simp add: JSON_parse_def run_def split: if_splits)
    with Cons.IH True show ?thesis by simp
  qed
qed

lemma trim_decomp: "\<exists>a b. s = a @ trim s @ b \<and> list_all isJsSpace a \<and> list_all isJsSpace b"
proof -
  define u where "u = dropWhile isJsSpace s"
  have 1: "s = takeWhile isJsSpace s @ u"
    by (simp add: u_def)
  have "u = rev (dropWhile isJsSpace (rev u)) @ rev (takeWhile isJsSpace (rev u))"
    by (metis rev_append rev_rev_ident takeWhile_dropWhile_id)
  then have 3: "u = trim s @ rev (takeWhile isJsSpace (rev u))"
    by (simp add: trim_def u_def)
  have a: "list_all isJsSpace (takeWhile isJsSpace s)"
    by (simp add: list_all_iff) (meson set_takeWhileD)
  have b: "list_all isJsSpace (rev (takeWhile isJsSpace (rev u)))"
    by (simp add: list_all_iff) (meson set_takeWhileD)
  from 1 3 have "s = takeWhile isJsSpace s @ trim s @ rev (takeWhile isJsSpace (rev u))"
    by simp
  with a b show ?thesis by blast
qed

lemma trim_dropWhile: "trim s = rev (dropWhile isJsSpace (rev (dropWhile isJsSpace s)))"
  by (simp add: trim_def)

lemma JSON_parse_trim:
  assumes "JSON_parse s = Some v"
  shows "JSON_parse (trim s) = Some v"
proof -
  define u where "u = dropWhile isJsSpace s"
  have pu: "JSON_parse u = Some v"
    unfolding u_def using assms by (rule JSON_parse_leading)
  have "u = rev (dropWhile isJsSpace (rev u)) @ rev (takeWhile isJsSpace (rev u))"
    by (metis rev_append rev_rev_ident takeWhile_dropWhile_id)
  then have u: "u = trim s @ rev (takeWhile isJsSpace (rev u))"
    by (simp add: trim_def u_def)
  have b: "list_all isJsSpace (rev (takeWhile isJsSpace (rev u)))"
    by (simp add: list_all_iff) (meson set_takeWhileD)
  from pu u have "JSON_parse (trim s @ rev (takeWhile isJsSpace (rev u))) = Some v"
    by simp
  with b show ?thesis by (rule JSON_parse_trailing)
qed

subsection \<open>Fences\<close>

lemma findSub_None_iff: "findSub sub s = None \<longleftrightarrow> \<not> js_includes s sub"
  by (induction s) (auto split: option.splits)

lemma js_includes_Nil [simp]: "js_includes s []"
  by (cases s) simp_all

lemma take_prefix_append:
  "take (length sub) s = sub \<Longrightarrow> take (length sub) (s @ b) = sub"
proof -
  assume a: "take (length sub) s = sub"
  have "length (take (length sub) s) = min (length s) (length sub)"
    by simp
  with a have "length sub \<le> length s"
    by simp
  with a show ?thesis by simp
qed

lemma js_includes_append_right: "js_includes m sub \<Longrightarrow> js_includes (m @ b) sub"
proof (induction m)
  case Nil
  then show ?case by simp
next
  case (Cons c m)
  show ?case
  proof (cases "take (length sub) (c # m) = sub")
    case True
    from take_prefix_append [OF this, of b] show ?thesis by simp
  next
    case False
    with Cons show ?thesis by simp
  qed
qed

lemma js_includes_append_left: "js_includes m sub \<Longrightarrow> js_includes (a @ m) sub"
  by (induction a) simp_all

lemma js_includes_trim: "js_includes (trim s) sub \<Longrightarrow> js_includes s sub"
proof -
  assume i: "js_includes (trim s) sub"
  obtain a b where s: "s = a @ trim s @ b"
    using trim_decomp [of s] by blast
  from i have "js_includes (a @ trim s @ b) sub"
    by (intro js_includes_append_left js_includes_append_right)
  with s show ?thesis by simp
qed

lemma codeBlockMatch_no_fence:
  "\<not> js_includes s fence \<Longrightarrow> codeBlockMatch s = None"
  by (simp add: codeBlockMatch_def findSub_None_iff [symmetric])

subsection \<open>Comments\<close>

lemma commentStart_append: "commentStart b s \<Longrightarrow> commentStart b (s @ w)"
proof (induction b s rule: commentStart.induct)
  case (1 bol)
  then show ?case by simp
next
  case (2 bol c cs)
  have t1: "take 1 (cs @ w) = [47]" if "take 1 cs = [47]"
    using that by (cases cs) simp_all
  have t2: "take 2 (cs @ w) = [47, 47]" if "take 2 cs = [47, 47]"
    using that by (cases cs; cases "tl cs") auto
  from 2 t1 t2 show ?case
    by (auto simp del: take_Suc_Cons split: if_splits)
qed

lemma commentStart_bol:
  "take 2 s \<noteq> [47, 47] \<Longrightarrow> commentStart b s \<Longrightarrow> commentStart b' s"
  by (cases s; cases "tl s") (auto split: if_splits)

lemma commentStart_prepend_space:
  assumes "isJsSpace c" and "commentStart True s"
  shows "commentStart b (c # s)"
proof (cases "take 2 s = [47, 47]")
  case True
  with space_chars(7) [OF assms(1)] show ?thesis by simp
next
  case False
  from commentStart_bol [OF False assms(2)] show ?thesis
    by simp
qed

lemma commentStart_prepend_spaces:
  "list_all isJsSpace a \<Longrightarrow> commentStart True s \<Longrightarrow> commentStart True (a @ s)"
  by (induction a) (simp_all add: commentStart_prepend_space del: commentStart.simps)

lemma commentStart_trim: "commentStart True (trim s) \<Longrightarrow> commentStart True s"
proof -
  assume c: "commentStart True (trim s)"
  obtain a b where s: "s = a @ trim s @ b" and a: "list_all isJsSpace a"
    using trim_decomp [of s] by blast
  from c have "commentStart True (trim s @ b)"
    by (rule commentStart_append)
  with a have "commentStart True (a @ trim s @ b)"
    by (rule commentStart_prepend_spaces)
  with s show ?thesis by simp
qed

subsection \<open>The first brace or bracket\<close>

lemma trim_hd: "trim s = c # r \<Longrightarrow> \<not> isJsSpace c"
proof -
  assume t: "trim s = c # r"
  define u where "u = dropWhile isJsSpace s"
  have "u = rev (dropWhile isJsSpace (rev u)) @ rev (takeWhile isJsSpace (rev u))"
    by (metis rev_append rev_rev_ident takeWhile_dropWhile_id)
  then have "u = trim s @ rev (takeWhile isJsSpace (rev u))"
    by (simp add: trim_def u_def)
  with t obtain r' where "u = c # r'"
    by (metis append_Cons)
  then have "hd (dropWhile isJsSpace s) = c" and "dropWhile isJsSpace s \<noteq> []"
    by (simp_all add: u_def)
  then show ?thesis
    using hd_dropWhile [of isJsSpace s] by simp
qed

lemma struct_step_done:
  "struct_step [] (EDone v) c = (if isJsonWs c then PState [] (EDone v) LNone else PFail)"
  by (simp add: struct_step_def)

lemma scalar_st_step: "scalar_st st \<Longrightarrow> scalar_st (step st c)"
proof (cases st)
  case PFail
  then show ?thesis by simp
next
  case (PState fs e l)
  assume s: "scalar_st st"
  with PState have fs: "fs = []" by (cases fs) simp_all
  show ?thesis
  proof (cases l)
    case LNone
    with s PState fs obtain v where "e = EDone v" "\<not> isContainer v"
      by (cases e) simp_all
    with PState fs LNone show ?thesis by (simp add: struct_step_done)
  next
    case (LStr acc)
    with PState fs show ?thesis by (cases e) simp_all
  next
    case (LEsc acc)
    with PState fs show ?thesis by (simp split: option.splits)
  next
    case (LUni acc hs)
    with PState fs show ?thesis by (simp split: option.splits)
  next
    case (LNum ns lx)
    with PState fs show ?thesis by (simp add: struct_step_done split: option.splits)
  next
    case (LLit rs v)
    with s PState fs show ?thesis by (cases rs) simp_all
  qed
qed

lemma scalar_st_foldl: "scalar_st st \<Longrightarrow> scalar_st (foldl step st s)"
  by (induction s arbitrary: st) (simp_all add: scalar_st_step)

lemma scalar_st_finish: "scalar_st st \<Longrightarrow> finish st = Some v \<Longrightarrow> \<not> isContainer v"
  by (induction st rule: scalar_st.induct) (auto split: if_splits)

lemma scalar_st_first:
  "c \<noteq> 123 \<Longrightarrow> c \<noteq> 91 \<Longrightarrow> \<not> isJsonWs c \<Longrightarrow> scalar_st (step (PState [] EValue LNone) c)"
  by (auto simp: struct_step_def)

lemma container_first_char:
  assumes "JSON_parse (c # s) = Some v" and "isContainer v" and "\<not> isJsonWs c"
  shows "c = 123 \<or> c = 91"
proof (rule ccontr)
  assume "\<not> (c = 123 \<or> c = 91)"
  then have "scalar_st (step (PState [] EValue LNone) c)"
    using assms(3) scalar_st_first [of c] by blast
  then have "scalar_st (run (c # s))"
    by (simp add: run_def scalar_st_foldl)
  with assms(1) have "\<not> isContainer v"
    by (simp add: JSON_parse_def scalar_st_finish)
  with assms(2) show False by simp
qed

lemma fromFirstOpen_no_open:
  "123 \<notin> set s \<Longrightarrow> 91 \<notin> set s \<Longrightarrow> fromFirstOpen s = s"
proof -
  assume "123 \<notin> set s" "91 \<notin> set s"
  then have "dropWhile (\<lambda>c. c \<noteq> 123 \<and> c \<noteq> 91) s = []"
    by (auto simp: dropWhile_eq_Nil_conv)
  then show ?thesis
    unfolding fromFirstOpen_def by (simp only: list.case)
qed

lemma fromFirstOpen_at_open: "c = 123 \<or> c = 91 \<Longrightarrow> fromFirstOpen (c # r) = c # r"
  by (auto simp: fromFirstOpen_def)

lemma set_trim: "set (trim s) \<subseteq> set s"
proof -
  obtain a b where "s = a @ trim s @ b" using trim_decomp [of s] by blast
  then have "set s = set a \<union> set (trim s) \<union> set b"
    by (metis set_append sup_assoc)
  then show ?thesis by blast
qed

lemma JSON_parse_Nil: "JSON_parse [] = None"
  by (simp add: JSON_parse_def run_def)

text \<open>
  C2, as the code has it. The parser returns the plain decode of a valid JSON text when
  the cleaning steps find nothing to clean in it: the text has no fence of three
  backticks, no \<open>//\<close> at the start of a line or after a character other than a colon,
  and it is an object or an array, or has no brace or bracket at all. Whitespace around
  the document does not matter.
\<close>

theorem extractJson_plain_decode:
  assumes "JSON_parse text = Some v"
    and "\<not> js_includes text fence"
    and "\<not> commentStart True text"
    and "isContainer v \<or> (123 \<notin> set text \<and> 91 \<notin> set text)"
  shows "extractJson text = Inr v"
proof -
  define t where "t = trim text"
  have p: "JSON_parse t = Some v"
    unfolding t_def using assms(1) by (rule JSON_parse_trim)
  have f: "codeBlockMatch t = None"
    unfolding t_def using assms(2) js_includes_trim codeBlockMatch_no_fence by blast
  have c: "stripComments True t = t"
    unfolding t_def using assms(3) commentStart_trim stripComments_unchanged by blast
  have o: "fromFirstOpen t = t"
  proof (cases "isContainer v")
    case True
    from p obtain c r where cr: "t = c # r"
      by (cases t) (simp_all add: JSON_parse_Nil)
    then have "\<not> isJsSpace c"
      using trim_hd [of "text" c r] by (simp add: t_def)
    then have "\<not> isJsonWs c"
      using jsonWs_space by blast
    with container_first_char [of c r v] p cr True have "c = 123 \<or> c = 91"
      by simp
    then show ?thesis
      unfolding cr by (rule fromFirstOpen_at_open)
  next
    case False
    with assms(4) have "123 \<notin> set text" "91 \<notin> set text" by simp_all
    with set_trim [of "text"] have "123 \<notin> set t" "91 \<notin> set t"
      by (auto simp: t_def)
    then show ?thesis by (rule fromFirstOpen_no_open)
  qed
  have "cleanText text = t"
    using f c o by (simp add: cleanText_def t_def [symmetric])
  with p show ?thesis
    by (simp add: extractJson_def)
qed

theorem extractJson_plain_decode_witness:
  \<open>JSON_parse (js '' {"a": [1, "http://x"]} '')
     = Some (JObject [(js ''a'', JArray [JNumber (js ''1''), JString (js ''http://x'')])])
   \<and> \<not> js_includes (js '' {"a": [1, "http://x"]} '') fence
   \<and> \<not> commentStart True (js '' {"a": [1, "http://x"]} '')
   \<and> isContainer (JObject [(js ''a'', JArray [JNumber (js ''1''), JString (js ''http://x'')])])
   \<and> extractJson (js '' {"a": [1, "http://x"]} '')
     = Inr (JObject [(js ''a'', JArray [JNumber (js ''1''), JString (js ''http://x'')])])\<close>
proof -
  have p: \<open>JSON_parse (js '' {"a": [1, "http://x"]} '')
     = Some (JObject [(js ''a'', JArray [JNumber (js ''1''), JString (js ''http://x'')])])\<close>
    by (simp add: js_def parse_eval)
  have f: \<open>\<not> js_includes (js '' {"a": [1, "http://x"]} '') fence\<close>
    by (simp add: js_def fence_def)
  have c: \<open>\<not> commentStart True (js '' {"a": [1, "http://x"]} '')\<close>
    by (simp add: js_def isLineTerminator_def)
  have k: \<open>isContainer (JObject [(js ''a'', JArray [JNumber (js ''1''), JString (js ''http://x'')])])\<close>
    by simp
  from extractJson_plain_decode [OF p f c] k p f c show ?thesis
    by blast
qed

text \<open>
  The claim as stated fails: the text \<open>"a{b"\<close> is valid JSON, a string; the search for
  the start of the document (step 3) keeps it from its brace on, \<open>{b"\<close>, which neither
  parses nor can be repaired, and the parser fails where a plain decode gives \<open>a{b\<close>.
\<close>

theorem extractJson_plain_decode_counterexample:
  \<open>JSON_parse (js ''"a{b"'') = Some (JString (js ''a{b''))
   \<and> cleanText (js ''"a{b"'') = js ''{b"''
   \<and> extractJson (js ''"a{b"'') = Inl IncompleteOutput\<close>
  by (simp add: js_def parse_eval extract_eval)

section \<open>The repair of a truncated document\<close>

subsection \<open>The scan and the automaton agree\<close>

lemma scanChar_neutral:
  assumes "neutral c" and "\<not> isEscaped st"
  shows "stack (scanChar st c) = stack st \<and> inString (scanChar st c) = inString st
       \<and> \<not> isEscaped (scanChar st c)"
  using assms by (simp add: scanChar_def scanOutside_def neutral_def Let_def)

lemma stripTrailingComma_quote: "stripTrailingComma (p @ [34]) = p @ [34]"
  by (simp add: stripTrailingComma_def isJsSpace_def)

lemma closer_push_value:
  "push_value v fs = PState fs' e' l' \<Longrightarrow> map closer fs' = map closer fs \<and> l' = LNone"
  by (induction v fs rule: push_value.induct) auto

lemma closer_string_done:
  "string_done fs e s = PState fs' e' l' \<Longrightarrow> map closer fs' = map closer fs \<and> l' = LNone"
  by (induction fs e s rule: string_done.induct) (auto dest: closer_push_value)

lemma closer_close_array:
  "close_array fs = PState fs' e' l' \<Longrightarrow> map closer fs = 93 # map closer fs' \<and> l' = LNone"
  by (induction fs rule: close_array.induct) (auto dest: closer_push_value)

lemma closer_close_object:
  "close_object fs = PState fs' e' l' \<Longrightarrow> map closer fs = 125 # map closer fs' \<and> l' = LNone"
  by (induction fs rule: close_object.induct) (auto dest: closer_push_value)

lemma closer_after_comma:
  "after_comma fs = PState fs' e' l' \<Longrightarrow> fs' = fs \<and> l' = LNone"
  by (induction fs rule: after_comma.induct) auto

text \<open>The scan outside a string, by the kind of character.\<close>

lemma scanChar_out:
  assumes "\<not> inString sc" and "\<not> isEscaped sc"
  shows "c = 34 \<Longrightarrow> stack (scanChar sc c) = stack sc \<and> inString (scanChar sc c) \<and> \<not> isEscaped (scanChar sc c)"
    and "c = 91 \<Longrightarrow> stack (scanChar sc c) = 93 # stack sc \<and> \<not> inString (scanChar sc c) \<and> \<not> isEscaped (scanChar sc c)"
    and "c = 123 \<Longrightarrow> stack (scanChar sc c) = 125 # stack sc \<and> \<not> inString (scanChar sc c) \<and> \<not> isEscaped (scanChar sc c)"
    and "c = 93 \<or> c = 125 \<Longrightarrow> stack sc = c # rest \<Longrightarrow>
           stack (scanChar sc c) = rest \<and> \<not> inString (scanChar sc c) \<and> \<not> isEscaped (scanChar sc c)"
  using assms by (auto simp: scanChar_def scanOutside_def Let_def)

lemma scanChar_in:
  assumes "inString sc" and "\<not> isEscaped sc"
  shows "c = 34 \<Longrightarrow> stack (scanChar sc c) = stack sc \<and> \<not> inString (scanChar sc c) \<and> \<not> isEscaped (scanChar sc c)"
    and "c = 92 \<Longrightarrow> stack (scanChar sc c) = stack sc \<and> inString (scanChar sc c) \<and> isEscaped (scanChar sc c)"
    and "c \<noteq> 34 \<Longrightarrow> c \<noteq> 92 \<Longrightarrow> stack (scanChar sc c) = stack sc \<and> inString (scanChar sc c) \<and> \<not> isEscaped (scanChar sc c)"
  using assms by (auto simp: scanChar_def scanOutside_def Let_def)

lemma scanChar_esc:
  assumes "isEscaped sc"
  shows "stack (scanChar sc c) = stack sc \<and> inString (scanChar sc c) = inString sc \<and> \<not> isEscaped (scanChar sc c)"
  using assms by (simp add: scanChar_def)

lemma is_esc_in_str: "is_esc l \<Longrightarrow> in_str l"
  by (cases l) simp_all

lemma struct_step_neutral:
  assumes "neutral c"
  shows "struct_step fs e c = PFail
       \<or> (\<exists>e' l'. struct_step fs e c = PState fs e' l' \<and> \<not> in_str l' \<and> lit_neutral l')"
proof -
  have n: "c \<noteq> 34" "c \<noteq> 91" "c \<noteq> 123" "c \<noteq> 93" "c \<noteq> 125"
    using assms by (simp_all add: neutral_def)
  have ac: "after_comma fs = PFail \<or> (\<exists>e'. after_comma fs = PState fs e' LNone)"
    by (induction fs rule: after_comma.induct) simp_all
  show ?thesis
    using ac by (auto simp: struct_step_def n neutral_def)
qed

lemma struct_step_chars:
  "struct_step fs e 34 = (if wants_value e \<or> wants_key e then PState fs e (LStr []) else PFail)"
  "struct_step fs e 91 = (if wants_value e then PState (FArray [] # fs) EValueOrEnd LNone else PFail)"
  "struct_step fs e 123 = (if wants_value e then PState (FObject [] None # fs) EKeyOrEnd LNone else PFail)"
  "struct_step fs e 93 = (if may_close e then close_array fs else PFail)"
  "struct_step fs e 125 = (if may_close e then close_object fs else PFail)"
  "struct_step fs e 44 = (if e = ECommaOrEnd then after_comma fs else PFail)"
  "struct_step fs e 92 = PFail"
  by (simp_all add: struct_step_def isJsonWs_def isDigit_def)

lemma corr_struct_step:
  assumes "stack sc = map closer fs" and "\<not> inString sc" and "\<not> isEscaped sc"
  shows "corr (struct_step fs e c) (scanChar sc c)"
proof -
  consider "c = 92" | "c = 34" | "c = 91" | "c = 123" | "c = 93" | "c = 125" | "neutral c"
    by (auto simp: neutral_def)
  then show ?thesis
  proof cases
    case 1
    then show ?thesis by (simp add: struct_step_chars)
  next
    case 2
    with scanChar_out(1) [OF assms(2,3), of c] assms(1) show ?thesis
      by (simp add: struct_step_chars)
  next
    case 3
    with scanChar_out(2) [OF assms(2,3), of c] assms(1) show ?thesis
      by (simp add: struct_step_chars)
  next
    case 4
    with scanChar_out(3) [OF assms(2,3), of c] assms(1) show ?thesis
      by (simp add: struct_step_chars)
  next
    case 5
    show ?thesis
    proof (cases "struct_step fs e c")
      case PFail
      then show ?thesis by simp
    next
      case (PState fs' e' l')
      with 5 have ca: "close_array fs = PState fs' e' l'"
        by (simp add: struct_step_chars split: if_splits)
      from closer_close_array [OF ca] have m: "map closer fs = 93 # map closer fs'" and l: "l' = LNone"
        by simp_all
      from scanChar_out(4) [OF assms(2,3), of c "map closer fs'"] 5 m assms(1)
      show ?thesis unfolding PState l by simp
    qed
  next
    case 6
    show ?thesis
    proof (cases "struct_step fs e c")
      case PFail
      then show ?thesis by simp
    next
      case (PState fs' e' l')
      with 6 have ca: "close_object fs = PState fs' e' l'"
        by (simp add: struct_step_chars split: if_splits)
      from closer_close_object [OF ca] have m: "map closer fs = 125 # map closer fs'" and l: "l' = LNone"
        by simp_all
      from scanChar_out(4) [OF assms(2,3), of c "map closer fs'"] 6 m assms(1)
      show ?thesis unfolding PState l by simp
    qed
  next
    case 7
    from scanChar_neutral [OF 7 assms(3)] struct_step_neutral [OF 7, of fs e] assms(1,2)
    show ?thesis by (auto dest: is_esc_in_str)
  qed
qed

lemma num_next_neutral: "num_next ns c = Some ns' \<Longrightarrow> neutral c"
  by (cases ns) (auto simp: neutral_def isDigit_def split: if_splits)

lemma hexval_neutral: "hexval c = Some h \<Longrightarrow> neutral c"
  by (auto simp: hexval_def neutral_def split: if_splits)

lemma corr_lex_step:
  assumes "corr (PState fs e l) sc"
  shows "corr (lex_step fs e l c) (scanChar sc c)"
proof (cases l)
  case LNone
  with assms corr_struct_step [of sc fs e c] show ?thesis by simp
next
  case (LStr acc)
  with assms have s: "stack sc = map closer fs" "inString sc" "\<not> isEscaped sc" by simp_all
  consider "c = 34" | "c = 92" | "c \<noteq> 34 \<and> c \<noteq> 92" by blast
  then show ?thesis
  proof cases
    case 1
    show ?thesis
    proof (cases "string_done fs e acc")
      case PFail
      with 1 LStr show ?thesis by simp
    next
      case (PState fs' e' l')
      from closer_string_done [OF this] scanChar_in(1) [OF s(2,3) 1] s(1) 1 LStr PState
      show ?thesis by simp
    qed
  next
    case 2
    with scanChar_in(2) [OF s(2,3) 2] s(1) LStr show ?thesis by simp
  next
    case 3
    with scanChar_in(3) [OF s(2,3), of c] s(1) LStr show ?thesis by simp
  qed
next
  case (LEsc acc)
  with assms have s: "stack sc = map closer fs" "inString sc" "isEscaped sc" by simp_all
  from scanChar_esc [OF s(3), of c] s(1,2)
  have "stack (scanChar sc c) = map closer fs" "inString (scanChar sc c)"
    "\<not> isEscaped (scanChar sc c)" by simp_all
  then show ?thesis
    unfolding LEsc by (cases "unescape c") auto
next
  case (LUni acc hs)
  with assms have s: "stack sc = map closer fs" "inString sc" "\<not> isEscaped sc" by simp_all
  show ?thesis
  proof (cases "hexval c")
    case None
    with LUni show ?thesis by simp
  next
    case (Some h)
    from hexval_neutral [OF Some] have "c \<noteq> 34" "c \<noteq> 92" by (simp_all add: neutral_def)
    with scanChar_in(3) [OF s(2,3), of c] s(1) LUni Some show ?thesis by simp
  qed
next
  case (LNum ns lx)
  with assms have s: "stack sc = map closer fs" "\<not> inString sc" "\<not> isEscaped sc" by simp_all
  show ?thesis
  proof (cases "num_next ns c")
    case (Some ns')
    from scanChar_neutral [OF num_next_neutral [OF Some] s(3)] s(1,2) LNum Some
    show ?thesis by simp
  next
    case None
    show ?thesis
    proof (cases "num_final ns")
      case False
      with None LNum show ?thesis by simp
    next
      case True
      show ?thesis
      proof (cases "push_value (JNumber lx) fs")
        case PFail
        with None True LNum show ?thesis by simp
      next
        case (PState fs' e' l')
        from closer_push_value [OF PState] s(1) have "stack sc = map closer fs'" by simp
        from corr_struct_step [OF this s(2,3), of e' c] None True LNum PState
        show ?thesis by simp
      qed
    qed
  qed
next
  case (LLit rs v)
  with assms have s: "stack sc = map closer fs" "\<not> inString sc" "\<not> isEscaped sc"
    and n: "list_all neutral rs" by simp_all
  show ?thesis
  proof (cases rs)
    case Nil
    with LLit show ?thesis by simp
  next
    case (Cons r rs')
    show ?thesis
    proof (cases "c = r")
      case False
      with Cons LLit show ?thesis by simp
    next
      case True
      with n Cons have nc: "neutral c" and nr: "list_all neutral rs'" by simp_all
      from scanChar_neutral [OF nc s(3)] s(1,2)
      have sc': "stack (scanChar sc c) = map closer fs" "\<not> inString (scanChar sc c)"
        "\<not> isEscaped (scanChar sc c)" by simp_all
      show ?thesis
      proof (cases "rs' = []")
        case False
        with True Cons LLit sc' nr show ?thesis by simp
      next
        case e: True
        show ?thesis
        proof (cases "push_value v fs")
          case PFail
          with e True Cons LLit show ?thesis by simp
        next
          case (PState fs' e' l')
          from closer_push_value [OF PState] sc' e True Cons LLit PState show ?thesis by simp
        qed
      qed
    qed
  qed
qed

lemma corr_step: "corr st sc \<Longrightarrow> corr (step st c) (scanChar sc c)"
  by (cases st) (simp_all add: corr_lex_step)

lemma corr_foldl: "corr st sc \<Longrightarrow> corr (foldl step st s) (foldl scanChar sc s)"
  by (induction s arbitrary: st sc) (simp_all add: corr_step)

lemma corr_run: "corr (run p) (scan p)"
  unfolding run_def scan_def by (rule corr_foldl) (simp add: scanInit_def)

subsection \<open>Closing what is open\<close>

lemma foldl_step_Cons: "foldl step st (c # cs) = foldl step (step st c) cs"
  by simp

lemma unwind_run:
  "unwind v fs = Some w \<Longrightarrow>
     foldl step (push_value v fs) (map closer fs) = PState [] (EDone w) LNone"
  by (induction v fs rule: unwind.induct) (simp_all add: struct_step_chars)

lemma close_run:
  "close_all fs = Some v \<Longrightarrow> may_close e \<Longrightarrow>
     foldl step (PState fs e LNone) (map closer fs) = PState [] (EDone v) LNone"
  by (induction fs rule: close_all.induct) (simp_all add: struct_step_chars unwind_run)

lemma string_done_value: "wants_value e \<Longrightarrow> string_done fs e s = push_value (JString s) fs"
  by (induction fs e s rule: string_done.induct) simp_all

lemma str_run:
  "wants_value e \<Longrightarrow> unwind (JString acc) fs = Some v \<Longrightarrow>
     foldl step (PState fs e (LStr acc)) (34 # map closer fs) = PState [] (EDone v) LNone"
  by (simp add: string_done_value unwind_run)

lemma num_next_closer: "num_next ns (closer f) = None"
  by (cases ns; cases f) (simp_all add: isDigit_def)

lemma step_num_closer:
  "num_final ns \<Longrightarrow>
     step (PState fs e (LNum ns lx)) (closer f) = step (push_value (JNumber lx) fs) (closer f)"
proof (cases "push_value (JNumber lx) fs")
  case PFail
  then show "num_final ns \<Longrightarrow> ?thesis" by (simp add: num_next_closer)
next
  case (PState fs' e' l')
  from closer_push_value [OF this] have "l' = LNone" by simp
  with PState show "num_final ns \<Longrightarrow> ?thesis" by (simp add: num_next_closer)
qed

lemma num_run:
  assumes "num_final ns" and "unwind (JNumber lx) fs = Some v"
  shows "finish (foldl step (PState fs e (LNum ns lx)) (map closer fs)) = Some v"
proof (cases fs)
  case Nil
  with assms show ?thesis by simp
next
  case (Cons f fs')
  have "foldl step (PState fs e (LNum ns lx)) (map closer fs)
          = foldl step (step (PState fs e (LNum ns lx)) (closer f)) (map closer fs')"
    by (simp add: Cons)
  also have "\<dots> = foldl step (step (push_value (JNumber lx) fs) (closer f)) (map closer fs')"
    by (simp only: step_num_closer [OF assms(1)])
  also have "\<dots> = foldl step (push_value (JNumber lx) fs) (map closer fs)"
    by (simp add: Cons)
  also have "\<dots> = PState [] (EDone v) LNone"
    using assms(2) by (rule unwind_run)
  finally show ?thesis by simp
qed

lemma close_all_push_value:
  "push_value v fs0 = PState fs ECommaOrEnd l \<Longrightarrow> close_all fs = unwind v fs0"
  by (induction v fs0 rule: push_value.induct) auto

subsection \<open>The trailing comma\<close>

lemma stripTrailingComma_noop: "\<not> endsWithComma s \<Longrightarrow> stripTrailingComma s = s"
  by (cases "dropWhile isJsSpace (rev s)")
     (simp_all add: endsWithComma_def stripTrailingComma_def del: dropWhile_eq_Nil_conv)

lemma dropWhile_rev_spaces:
  "list_all isJsSpace w \<Longrightarrow> dropWhile isJsSpace (rev w @ r) = dropWhile isJsSpace r"
  by (induction w rule: rev_induct) (simp_all add: list_all_iff)

lemma stripTrailingComma_comma:
  assumes "list_all isJsSpace w"
  shows "stripTrailingComma (q @ [44] @ w) = q"
proof -
  have "dropWhile isJsSpace (rev (q @ [44] @ w)) = dropWhile isJsSpace (44 # rev q)"
    using dropWhile_rev_spaces [OF assms, of "44 # rev q"] by simp
  also have "\<dots> = 44 # rev q"
    by (simp add: isJsSpace_def)
  finally show ?thesis
    by (simp add: stripTrailingComma_def del: rev_append)
qed

lemma endsWithComma_snoc:
  "endsWithComma (p @ [c]) = (if isJsSpace c then endsWithComma p else c = 44)"
  by (simp add: endsWithComma_def)

subsection \<open>The state of the automaton at the cut\<close>

lemma push_value_expect:
  "push_value v fs = PState fs' e' l' \<Longrightarrow> (e' = ECommaOrEnd \<or> (\<exists>w. e' = EDone w)) \<and> l' = LNone"
  by (induction v fs rule: push_value.induct) auto

lemma string_done_expect:
  "string_done fs e s = PState fs' e' l' \<Longrightarrow>
     (e' = ECommaOrEnd \<or> (\<exists>w. e' = EDone w) \<or> (e' = EColon \<and> colon_top e' fs')) \<and> l' = LNone"
  by (induction fs e s rule: string_done.induct) (auto dest: push_value_expect)

lemma close_array_expect:
  "close_array fs = PState fs' e' l' \<Longrightarrow> (e' = ECommaOrEnd \<or> (\<exists>w. e' = EDone w)) \<and> l' = LNone"
  by (induction fs rule: close_array.induct) (auto dest: push_value_expect)

lemma close_object_expect:
  "close_object fs = PState fs' e' l' \<Longrightarrow> (e' = ECommaOrEnd \<or> (\<exists>w. e' = EDone w)) \<and> l' = LNone"
  by (induction fs rule: close_object.induct) (auto dest: push_value_expect)

lemma after_comma_expect:
  "after_comma fs = PState fs' e' l' \<Longrightarrow>
     fs' = fs \<and> l' = LNone \<and> (e' = EKey \<or> e' = EValue) \<and> \<not> may_close e'"
  by (induction fs rule: after_comma.induct) auto

lemma struct_step_58:
  "struct_step fs e 58 = (if e = EColon then PState fs EValue LNone else PFail)"
  by (simp add: struct_step_def isJsonWs_def)

lemma struct_step_other:
  assumes "\<not> isJsonWs c" "c \<noteq> 34" "c \<noteq> 91" "c \<noteq> 123" "c \<noteq> 93" "c \<noteq> 125" "c \<noteq> 44" "c \<noteq> 58"
  shows "struct_step fs e c = PFail
       \<or> (\<exists>l. struct_step fs e c = PState fs e l \<and> l \<noteq> LNone \<and> lit_plain l \<and> \<not> isJsSpace c)"
proof (cases "isJsSpace c")
  case True
  with assms(1) show ?thesis by (simp add: struct_step_space)
next
  case False
  with assms show ?thesis
    by (simp add: struct_step_def isJsSpace_def)
qed

lemma not_aac:
  "e = ECommaOrEnd \<or> (\<exists>w. e = EDone w) \<or> e = EColon \<or> e = EValueOrEnd \<or> e = EKeyOrEnd
     \<Longrightarrow> e \<noteq> EKey \<and> \<not> after_array_comma e fs"
  by auto

lemma struct_into_none:
  assumes "colon_top e' fs'" and "struct_step fs' e' c = PState fs e LNone"
  shows "(isJsonWs c \<and> fs = fs' \<and> e = e')
       \<or> (c = 44 \<and> \<not> may_close e \<and> fs = fs' \<and> e' = ECommaOrEnd)
       \<or> (\<not> isJsSpace c \<and> c \<noteq> 44 \<and> e \<noteq> EKey \<and> \<not> after_array_comma e fs)"
proof -
  consider "isJsonWs c" | "c = 34" | "c = 91" | "c = 123" | "c = 93" | "c = 125" | "c = 44" | "c = 58"
    | "\<not> isJsonWs c" "c \<noteq> 34" "c \<noteq> 91" "c \<noteq> 123" "c \<noteq> 93" "c \<noteq> 125" "c \<noteq> 44" "c \<noteq> 58"
    by blast
  then show ?thesis
  proof cases
    case 1
    with assms(2) show ?thesis by (simp add: struct_step_def)
  next
    case 2
    with assms(2) show ?thesis by (simp add: struct_step_chars split: if_splits)
  next
    case 3
    with assms(2) show ?thesis by (auto simp: struct_step_chars isJsSpace_def split: if_splits)
  next
    case 4
    with assms(2) show ?thesis by (auto simp: struct_step_chars isJsSpace_def split: if_splits)
  next
    case 5
    with assms(2) have "close_array fs' = PState fs e LNone"
      by (simp add: struct_step_chars split: if_splits)
    from close_array_expect [OF this] not_aac [of e fs] 5 show ?thesis
      by (auto simp: isJsSpace_def)
  next
    case 6
    with assms(2) have "close_object fs' = PState fs e LNone"
      by (simp add: struct_step_chars split: if_splits)
    from close_object_expect [OF this] not_aac [of e fs] 6 show ?thesis
      by (auto simp: isJsSpace_def)
  next
    case 7
    with assms(2) have e': "e' = ECommaOrEnd" and "after_comma fs' = PState fs e LNone"
      by (simp_all add: struct_step_chars split: if_splits)
    from after_comma_expect [OF this(2)] e' 7 show ?thesis by simp
  next
    case 8
    with assms(2) have e': "e' = EColon" and r: "fs = fs'" "e = EValue"
      by (simp_all add: struct_step_58 split: if_splits)
    from assms(1) e' obtain kvs k fs'' where "fs' = FObject kvs k # fs''"
      by (cases "(e', fs')" rule: colon_top.cases) auto
    with r 8 show ?thesis by (simp add: isJsSpace_def)
  next
    case 9
    from struct_step_other [OF 9, of fs' e'] assms(2) show ?thesis by auto
  qed
qed

lemma step_into_none:
  assumes "plain_state st" and "step st c = PState fs e LNone"
  shows "arrives st c fs e"
proof (cases st)
  case PFail
  with assms(2) show ?thesis by simp
next
  case (PState fs' e' l')
  with assms(1) have ct: "colon_top e' fs'" and lp: "lit_plain l'" by simp_all
  show ?thesis
  proof (cases l')
    case LNone
    with PState assms(2) have "struct_step fs' e' c = PState fs e LNone" by simp
    from struct_into_none [OF ct this] PState LNone show ?thesis
      by (auto simp: arrives_def)
  next
    case (LStr acc)
    with PState assms(2) have c: "c = 34" and "string_done fs' e' acc = PState fs e LNone"
      by (simp_all split: if_splits)
    from string_done_expect [OF this(2)] not_aac [of e fs] c show ?thesis
      by (auto simp: arrives_def isJsSpace_def)
  next
    case (LEsc acc)
    with PState assms(2) show ?thesis by (simp split: if_splits option.splits)
  next
    case (LUni acc hs)
    with PState assms(2) show ?thesis by (simp split: if_splits option.splits)
  next
    case (LNum ns lx)
    with PState assms(2) have nf: "num_final ns"
      and "(case push_value (JNumber lx) fs' of PFail \<Rightarrow> PFail
            | PState fs2 e2 l2 \<Rightarrow> struct_step fs2 e2 c) = PState fs e LNone"
      by (simp_all split: option.splits if_splits)
    then obtain fs2 e2 l2 where pv: "push_value (JNumber lx) fs' = PState fs2 e2 l2"
      and ss: "struct_step fs2 e2 c = PState fs e LNone"
      by (cases "push_value (JNumber lx) fs'") simp_all
    from push_value_expect [OF pv] have e2: "e2 = ECommaOrEnd \<or> (\<exists>w. e2 = EDone w)" and l2: "l2 = LNone"
      by simp_all
    then have "colon_top e2 fs2" by auto
    from struct_into_none [OF this ss] show ?thesis
    proof (elim disjE conjE)
      assume "isJsonWs c" "fs = fs2" "e = e2"
      with pv l2 e2 not_aac [of e fs] nf PState LNum show ?thesis
        by (auto simp: arrives_def)
    next
      assume "c = 44" "\<not> may_close e" "fs = fs2" "e2 = ECommaOrEnd"
      with pv l2 nf PState LNum show ?thesis
        by (auto simp: arrives_def)
    next
      assume "\<not> isJsSpace c" "c \<noteq> 44" "e \<noteq> EKey" "\<not> after_array_comma e fs"
      then show ?thesis by (simp add: arrives_def)
    qed
  next
    case (LLit rs v)
    show ?thesis
    proof (cases rs)
      case Nil
      with PState LLit assms(2) show ?thesis by simp
    next
      case (Cons r rs')
      with PState LLit assms(2) have c: "c = r" and "push_value v fs' = PState fs e LNone"
        by (simp_all split: if_splits)
      from push_value_expect [OF this(2)] not_aac [of e fs] c lp LLit Cons show ?thesis
        by (auto simp: arrives_def)
    qed
  qed
qed

lemma step_into_num:
  assumes "step st c = PState fs e (LNum ns lx)"
  shows "\<not> isJsSpace c \<and> c \<noteq> 44"
proof (cases st)
  case PFail
  with assms show ?thesis by simp
next
  case (PState fs' e' l')
  have ss: "\<not> isJsSpace c \<and> c \<noteq> 44" if "struct_step fs2 e2 c = PState fs e (LNum ns lx)" for fs2 e2
  proof -
    have "\<not> isJsSpace c"
      using that by (auto simp: struct_step_space split: if_splits)
    moreover have "c \<noteq> 44"
    proof
      assume "c = 44"
      with that have "after_comma fs2 = PState fs e (LNum ns lx)"
        by (simp add: struct_step_chars split: if_splits)
      from after_comma_expect [OF this] show False by simp
    qed
    ultimately show ?thesis by simp
  qed
  show ?thesis
  proof (cases l')
    case LNone
    with PState assms ss show ?thesis by simp
  next
    case (LStr acc)
    with PState assms string_done_expect [of fs' e' acc fs e "LNum ns lx"] show ?thesis
      by (simp split: if_splits)
  next
    case (LEsc acc)
    with PState assms show ?thesis by (simp split: if_splits option.splits)
  next
    case (LUni acc hs)
    with PState assms show ?thesis by (simp split: if_splits option.splits)
  next
    case (LNum ns' lx')
    show ?thesis
    proof (cases "num_next ns' c")
      case (Some ns2)
      then have "\<not> isJsSpace c"
        using num_next_space [of c ns'] by auto
      moreover have "c \<noteq> 44"
        using Some by (cases ns') (auto simp: isDigit_def split: if_splits)
      ultimately show ?thesis by simp
    next
      case None
      with PState LNum assms obtain fs2 e2 where "struct_step fs2 e2 c = PState fs e (LNum ns lx)"
        by (cases "push_value (JNumber lx') fs'") (simp_all split: if_splits)
      with ss show ?thesis by blast
    qed
  next
    case (LLit rs v)
    with PState assms push_value_expect [of v fs' fs e "LNum ns lx"] show ?thesis
      by (cases rs) (simp_all split: if_splits)
  qed
qed

lemma plain_push_value [simp]: "plain_state (push_value v fs)"
  by (induction v fs rule: push_value.induct) simp_all

lemma plain_string_done [simp]: "plain_state (string_done fs e s)"
  by (induction fs e s rule: string_done.induct) simp_all

lemma plain_close_array [simp]: "plain_state (close_array fs)"
  by (induction fs rule: close_array.induct) simp_all

lemma plain_close_object [simp]: "plain_state (close_object fs)"
  by (induction fs rule: close_object.induct) simp_all

lemma plain_after_comma [simp]: "plain_state (after_comma fs)"
  by (induction fs rule: after_comma.induct) simp_all

lemma plain_struct_step: "colon_top e fs \<Longrightarrow> plain_state (struct_step fs e c)"
  by (simp add: struct_step_def isJsSpace_def)

lemma plain_step: "plain_state st \<Longrightarrow> plain_state (step st c)"
proof (cases st)
  case PFail
  then show ?thesis by simp
next
  case (PState fs e l)
  assume "plain_state st"
  with PState have ct: "colon_top e fs" and lp: "lit_plain l" by simp_all
  show ?thesis
  proof (cases l)
    case LNone
    with PState ct show ?thesis by (simp add: plain_struct_step)
  next
    case (LStr acc)
    with PState ct show ?thesis by simp
  next
    case (LEsc acc)
    with PState ct show ?thesis by (simp split: option.splits)
  next
    case (LUni acc hs)
    with PState ct show ?thesis by (simp split: option.splits)
  next
    case (LNum ns lx)
    show ?thesis
    proof (cases "push_value (JNumber lx) fs")
      case PFail
      with PState LNum ct show ?thesis by (simp split: option.splits)
    next
      case p: (PState fs2 e2 l2)
      from push_value_expect [OF p] have "colon_top e2 fs2" by auto
      with PState LNum ct p show ?thesis
        by (simp add: plain_struct_step split: option.splits)
    qed
  next
    case (LLit rs v)
    with PState ct lp show ?thesis by (cases rs) simp_all
  qed
qed

lemma plain_foldl: "plain_state st \<Longrightarrow> plain_state (foldl step st s)"
  by (induction s arbitrary: st) (simp_all add: plain_step)

lemma plain_run: "plain_state (run p)"
  unfolding run_def by (rule plain_foldl) simp

lemma run_append: "run (a @ b) = foldl step (run a) b"
  by (simp add: run_def)

lemma run_snoc: "run (p @ [c]) = step (run p) c"
  by (simp add: run_def)

text \<open>What the end of the text looks like, by the state of the automaton there.\<close>

lemma cut_shape:
  "(\<forall>fs e. run p = PState fs e LNone \<and> may_close e \<longrightarrow> \<not> endsWithComma p)
   \<and> (\<forall>fs e ns lx. run p = PState fs e (LNum ns lx) \<longrightarrow> \<not> endsWithComma p)
   \<and> (\<forall>fs e. run p = PState fs e LNone \<and> (e = EKey \<or> after_array_comma e fs) \<longrightarrow>
        (\<exists>q w. p = q @ [44] @ w \<and> list_all isJsSpace w \<and> \<not> endsWithComma q
           \<and> (\<forall>v. close_all fs = Some v \<longrightarrow>
                 finish (foldl step (run q) (map closer fs)) = Some v)))"
proof (induction p rule: rev_induct)
  case Nil
  show ?case by (simp add: run_def)
next
  case (snoc c p)
  from snoc have ihB: "\<not> endsWithComma p" if "run p = PState fs e LNone" "may_close e" for fs e
    using that by blast
  from snoc have ihC: "\<not> endsWithComma p" if "run p = PState fs e (LNum ns lx)" for fs e ns lx
    using that by blast
  from snoc have ihA: "\<exists>q w. p = q @ [44] @ w \<and> list_all isJsSpace w \<and> \<not> endsWithComma q
           \<and> (\<forall>v. close_all fs = Some v \<longrightarrow> finish (foldl step (run q) (map closer fs)) = Some v)"
    if "run p = PState fs e LNone" "e = EKey \<or> after_array_comma e fs" for fs e
    using that by blast
  have B: "\<not> endsWithComma (p @ [c])" if r: "run (p @ [c]) = PState fs e LNone" and m: "may_close e"
    for fs e
  proof -
    from r have "step (run p) c = PState fs e LNone" by (simp add: run_snoc)
    from step_into_none [OF plain_run this]
    consider "isJsonWs c" "run p = PState fs e LNone"
      | fs0 e0 ns lx where "isJsonWs c" "run p = PState fs0 e0 (LNum ns lx)"
      | "c = 44" "\<not> may_close e"
      | "\<not> isJsSpace c" "c \<noteq> 44"
      unfolding arrives_def by blast
    then show ?thesis
    proof cases
      case 1
      with ihB [OF 1(2) m] jsonWs_space [of c] show ?thesis
        by (simp add: endsWithComma_snoc)
    next
      case 2
      with ihC [OF 2(2)] jsonWs_space [of c] show ?thesis
        by (simp add: endsWithComma_snoc)
    next
      case 3
      with m show ?thesis by simp
    next
      case 4
      then show ?thesis by (simp add: endsWithComma_snoc)
    qed
  qed
  have C: "\<not> endsWithComma (p @ [c])" if r: "run (p @ [c]) = PState fs e (LNum ns lx)" for fs e ns lx
  proof -
    from r have "step (run p) c = PState fs e (LNum ns lx)" by (simp add: run_snoc)
    from step_into_num [OF this] show ?thesis by (simp add: endsWithComma_snoc)
  qed
  have A: "\<exists>q w. p @ [c] = q @ [44] @ w \<and> list_all isJsSpace w \<and> \<not> endsWithComma q
           \<and> (\<forall>v. close_all fs = Some v \<longrightarrow> finish (foldl step (run q) (map closer fs)) = Some v)"
    if r: "run (p @ [c]) = PState fs e LNone" and a: "e = EKey \<or> after_array_comma e fs" for fs e
  proof -
    from r have "step (run p) c = PState fs e LNone" by (simp add: run_snoc)
    from step_into_none [OF plain_run this] a
    consider "isJsonWs c" "run p = PState fs e LNone"
      | "c = 44" "run p = PState fs ECommaOrEnd LNone"
      | fs0 e0 ns lx where "c = 44" "run p = PState fs0 e0 (LNum ns lx)" "num_final ns"
          "push_value (JNumber lx) fs0 = PState fs ECommaOrEnd LNone"
      unfolding arrives_def by blast
    then show ?thesis
    proof cases
      case 1
      from ihA [OF 1(2) a] obtain q w where q: "p = q @ [44] @ w" "list_all isJsSpace w"
        "\<forall>v. close_all fs = Some v \<longrightarrow> finish (foldl step (run q) (map closer fs)) = Some v"
        "\<not> endsWithComma q"
        by blast
      from q(1) have "p @ [c] = q @ [44] @ (w @ [c])" by simp
      moreover from q(2) 1(1) jsonWs_space [of c] have "list_all isJsSpace (w @ [c])" by simp
      ultimately show ?thesis using q(3,4) by blast
    next
      case 2
      have "finish (foldl step (run p) (map closer fs)) = Some v" if "close_all fs = Some v" for v
        using close_run [OF that, of ECommaOrEnd] 2(2) by simp
      moreover have "\<not> endsWithComma p" using ihB [OF 2(2)] by simp
      moreover have "p @ [c] = p @ [44] @ []" using 2(1) by simp
      moreover have "list_all isJsSpace []" by simp
      ultimately show ?thesis by blast
    next
      case 3
      from closer_push_value [OF 3(4)] have m: "map closer fs = map closer fs0" by simp
      have "finish (foldl step (run p) (map closer fs)) = Some v" if "close_all fs = Some v" for v
      proof -
        from that close_all_push_value [OF 3(4)] have "unwind (JNumber lx) fs0 = Some v" by simp
        from num_run [OF 3(3) this, of e0] 3(2) m show ?thesis by simp
      qed
      moreover have "\<not> endsWithComma p" using ihC [OF 3(2)] by simp
      moreover have "p @ [c] = p @ [44] @ []" using 3(1) by simp
      moreover have "list_all isJsSpace []" by simp
      ultimately show ?thesis by blast
    qed
  qed
  from A B C show ?case by blast
qed

subsection \<open>Commas before closers\<close>

lemma closer_set: "set (map closer fs) \<subseteq> {93, 125}"
proof (induction fs)
  case Nil
  show ?case by simp
next
  case (Cons f fs)
  then show ?case by (cases f) auto
qed

lemma commaBeforeCloser_no_comma: "44 \<notin> set s \<Longrightarrow> \<not> commaBeforeCloser s"
  by (induction s) simp_all

lemma take1_nonempty: "take 1 xs = [y] \<Longrightarrow> xs \<noteq> []"
  by (cases xs) simp_all

lemma dropWhile_append_nonempty:
  assumes "dropWhile P a \<noteq> []"
  shows "dropWhile P (a @ b) = dropWhile P a @ b"
proof -
  from assms have "\<not> (\<forall>x\<in>set a. P x)"
    using dropWhile_eq_Nil_conv [of P a] by blast
  then obtain x where "x \<in> set a" "\<not> P x" by blast
  then show ?thesis by (rule dropWhile_append1)
qed

lemma take1_dropWhile_append:
  assumes "dropWhile P a \<noteq> []"
  shows "take 1 (dropWhile P (a @ b)) = take 1 (dropWhile P a)"
proof -
  obtain x xs where d: "dropWhile P a = x # xs"
    using assms by (cases "dropWhile P a") simp_all
  have "dropWhile P (a @ b) = (x # xs) @ b"
    using dropWhile_append_nonempty [OF assms, of b] by (simp only: d)
  then show ?thesis
    by (simp only: d append_Cons take_Suc_Cons One_nat_def take_0)
qed

lemma dropWhile_append_all:
  assumes "dropWhile P a = []"
  shows "dropWhile P (a @ b) = dropWhile P b"
proof -
  from assms have "\<forall>x\<in>set a. P x"
    using dropWhile_eq_Nil_conv [of P a] by blast
  then show ?thesis
    by (induction a) simp_all
qed

lemma closerNext_nonempty:
  assumes "closerNext a"
  shows "dropWhile isJsSpace a \<noteq> []"
proof -
  from assms consider "take 1 (dropWhile isJsSpace a) = [125]" | "take 1 (dropWhile isJsSpace a) = [93]"
    unfolding closerNext_def by blast
  then show ?thesis
  proof cases
    case 1
    then show ?thesis by (rule take1_nonempty)
  next
    case 2
    then show ?thesis by (rule take1_nonempty)
  qed
qed

lemma closerNext_append1:
  assumes "closerNext a"
  shows "closerNext (a @ b)"
proof -
  have eq: "take 1 (dropWhile isJsSpace (a @ b)) = take 1 (dropWhile isJsSpace a)"
    by (rule take1_dropWhile_append [OF closerNext_nonempty [OF assms]])
  from assms show ?thesis
    unfolding closerNext_def eq .
qed

lemma closerNext_append:
  assumes "closerNext (a @ b)"
  shows "closerNext a \<or> (dropWhile isJsSpace a = [] \<and> closerNext b)"
proof (cases "dropWhile isJsSpace a = []")
  case True
  have eq: "dropWhile isJsSpace (a @ b) = dropWhile isJsSpace b"
    by (rule dropWhile_append_all [OF True])
  from assms have "closerNext b"
    unfolding closerNext_def eq .
  with True show ?thesis by blast
next
  case False
  have eq: "take 1 (dropWhile isJsSpace (a @ b)) = take 1 (dropWhile isJsSpace a)"
    by (rule take1_dropWhile_append [OF False])
  from assms have "closerNext a"
    unfolding closerNext_def eq .
  then show ?thesis by blast
qed

lemma commaBeforeCloser_append1: "commaBeforeCloser a \<Longrightarrow> commaBeforeCloser (a @ b)"
proof (induction a)
  case Nil
  then show ?case by simp
next
  case (Cons c a)
  show ?case
  proof (cases "c = 44 \<and> closerNext a")
    case True
    with closerNext_append1 [of a b] show ?thesis by simp
  next
    case False
    with Cons.prems have "commaBeforeCloser a" by (simp split: if_splits)
    from Cons.IH [OF this] show ?thesis by simp
  qed
qed

lemma endsWithComma_Cons: "endsWithComma a \<Longrightarrow> endsWithComma (c # a)"
proof -
  assume e: "endsWithComma a"
  then have n: "dropWhile isJsSpace (rev a) \<noteq> []"
    unfolding endsWithComma_def by (rule take1_nonempty)
  from take1_dropWhile_append [OF n, of "[c]"] e show ?thesis
    unfolding endsWithComma_def by (simp only: rev.simps)
qed

lemma endsWithComma_comma_spaces:
  assumes "dropWhile isJsSpace a = []"
  shows "endsWithComma (44 # a)"
proof -
  from assms have "\<forall>x\<in>set a. isJsSpace x"
    using dropWhile_eq_Nil_conv [of isJsSpace a] by blast
  then have "list_all isJsSpace a"
    by (simp add: list_all_iff)
  from dropWhile_rev_spaces [OF this, of "[44]"] have "dropWhile isJsSpace (rev a @ [44]) = [44]"
    by (simp add: isJsSpace_def)
  then show ?thesis
    unfolding endsWithComma_def by (simp only: rev.simps take_Suc_Cons One_nat_def take_0)
qed

lemma commaBeforeCloser_append:
  "commaBeforeCloser (a @ b) \<Longrightarrow>
     commaBeforeCloser a \<or> commaBeforeCloser b \<or> (endsWithComma a \<and> closerNext b)"
proof (induction a)
  case Nil
  then show ?case by simp
next
  case (Cons c a)
  show ?case
  proof (cases "c = 44 \<and> closerNext (a @ b)")
    case True
    from closerNext_append [of a b] True
    consider "closerNext a" | "dropWhile isJsSpace a = []" "closerNext b" by blast
    then show ?thesis
    proof cases
      case 1
      with True show ?thesis by simp
    next
      case 2
      from endsWithComma_comma_spaces [OF 2(1)] True 2(2) show ?thesis by blast
    qed
  next
    case False
    with Cons.prems have "commaBeforeCloser (a @ b)" by (simp split: if_splits)
    from Cons.IH [OF this]
    consider "commaBeforeCloser a" | "commaBeforeCloser b" | "endsWithComma a" "closerNext b"
      by blast
    then show ?thesis
    proof cases
      case 1
      then show ?thesis by simp
    next
      case 2
      then show ?thesis by blast
    next
      case 3
      with endsWithComma_Cons [of a c] show ?thesis by blast
    qed
  qed
qed

lemma commaBeforeCloser_closed:
  assumes "\<not> commaBeforeCloser r" and "\<not> endsWithComma r"
  shows "\<not> commaBeforeCloser (r @ map closer fs)"
proof
  assume "commaBeforeCloser (r @ map closer fs)"
  from commaBeforeCloser_append [OF this] assms
  have "commaBeforeCloser (map closer fs)" by blast
  moreover have "44 \<notin> set (map closer fs)"
    using closer_set [of fs] by auto
  ultimately show False
    using commaBeforeCloser_no_comma by blast
qed

lemma closerNext_quote: "\<not> closerNext [34]"
  by (simp add: closerNext_def isJsSpace_def)

lemma commaBeforeCloser_quote:
  assumes "\<not> commaBeforeCloser p"
  shows "\<not> commaBeforeCloser (p @ [34])"
proof
  assume "commaBeforeCloser (p @ [34])"
  from commaBeforeCloser_append [OF this] assms closerNext_quote show False
    by simp
qed

lemma endsWithComma_quote: "\<not> endsWithComma (p @ [34])"
  by (simp add: endsWithComma_snoc isJsSpace_def)

subsection \<open>The repaired text parses\<close>

lemma stripCommasBeforeClosers_noop:
  "\<not> commaBeforeCloser s \<Longrightarrow> stripCommasBeforeClosers s = s"
  by (induction s rule: stripCommasBeforeClosers.induct) (auto split: if_splits)

lemma recovered_closed:
  assumes "recovered (run p) = Some v"
  shows "JSON_parse (closeOpen p) = Some v
       \<and> (\<not> commaBeforeCloser p \<longrightarrow> \<not> commaBeforeCloser (closeOpen p))"
proof -
  from assms obtain fs e l where st: "run p = PState fs e l"
    by (cases "run p") simp_all
  from corr_run [of p] st have sc: "stack (scan p) = map closer fs" "inString (scan p) = in_str l"
    by simp_all
  show ?thesis
  proof (cases l)
    case (LStr acc)
    with assms st have w: "wants_value e" and u: "unwind (JString acc) fs = Some v"
      by (simp_all split: if_splits)
    from sc LStr have co: "closeOpen p = (p @ [34]) @ map closer fs"
      by (simp add: closeOpen_def Let_def stripTrailingComma_quote)
    then have "run (closeOpen p) = foldl step (run p) (34 # map closer fs)"
      by (simp add: run_append)
    also have "\<dots> = PState [] (EDone v) LNone"
      unfolding st LStr using w u by (rule str_run)
    finally have "JSON_parse (closeOpen p) = Some v" by (simp add: JSON_parse_def)
    moreover have "\<not> commaBeforeCloser (closeOpen p)" if "\<not> commaBeforeCloser p"
      unfolding co
      using commaBeforeCloser_quote [OF that] endsWithComma_quote [of p]
      by (rule commaBeforeCloser_closed)
    ultimately show ?thesis by blast
  next
    case (LNum ns lx)
    with assms st have f: "num_final ns" and u: "unwind (JNumber lx) fs = Some v"
      by (simp_all split: if_splits)
    from cut_shape [of p] st LNum have ne: "\<not> endsWithComma p" by blast
    with sc LNum have co: "closeOpen p = p @ map closer fs"
      by (simp add: closeOpen_def Let_def stripTrailingComma_noop)
    then have "run (closeOpen p) = foldl step (run p) (map closer fs)"
      by (simp only: run_append)
    with num_run [OF f u, of e] st LNum have "JSON_parse (closeOpen p) = Some v"
      by (simp add: JSON_parse_def)
    moreover have "\<not> commaBeforeCloser (closeOpen p)" if "\<not> commaBeforeCloser p"
      unfolding co using that ne by (rule commaBeforeCloser_closed)
    ultimately show ?thesis by blast
  next
    case LNone
    with assms st have c: "close_all fs = Some v"
      and k: "may_close e \<or> e = EKey \<or> after_array_comma e fs"
      by (simp_all split: if_splits)
    show ?thesis
    proof (cases "may_close e")
      case True
      from cut_shape [of p] st LNone True have ne: "\<not> endsWithComma p" by blast
      with sc LNone have co: "closeOpen p = p @ map closer fs"
        by (simp add: closeOpen_def Let_def stripTrailingComma_noop)
      then have "run (closeOpen p) = foldl step (run p) (map closer fs)"
        by (simp only: run_append)
      with close_run [OF c True] st LNone have "JSON_parse (closeOpen p) = Some v"
        by (simp add: JSON_parse_def)
      moreover have "\<not> commaBeforeCloser (closeOpen p)" if "\<not> commaBeforeCloser p"
        unfolding co using that ne by (rule commaBeforeCloser_closed)
      ultimately show ?thesis by blast
    next
      case False
      with k have "e = EKey \<or> after_array_comma e fs" by simp
      with cut_shape [of p] st LNone obtain q w where q: "p = q @ [44] @ w" "list_all isJsSpace w"
        "\<forall>v. close_all fs = Some v \<longrightarrow> finish (foldl step (run q) (map closer fs)) = Some v"
        "\<not> endsWithComma q"
        by blast
      from q(1) stripTrailingComma_comma [OF q(2), of q] have "stripTrailingComma p = q"
        by simp
      with sc LNone have co: "closeOpen p = q @ map closer fs"
        by (simp add: closeOpen_def Let_def)
      then have "run (closeOpen p) = foldl step (run q) (map closer fs)"
        by (simp only: run_append)
      with q(3) c have "JSON_parse (closeOpen p) = Some v"
        by (simp add: JSON_parse_def)
      moreover have "\<not> commaBeforeCloser (closeOpen p)" if n: "\<not> commaBeforeCloser p"
      proof -
        have "\<not> commaBeforeCloser q"
          using n commaBeforeCloser_append1 [of q "[44] @ w"] q(1) by auto
        then show ?thesis
          unfolding co using q(4) by (rule commaBeforeCloser_closed)
      qed
      ultimately show ?thesis by blast
    qed
  next
    case (LEsc acc)
    with assms st show ?thesis by simp
  next
    case (LUni acc hs)
    with assms st show ?thesis by simp
  next
    case (LLit rs w)
    with assms st show ?thesis by simp
  qed
qed

text \<open>
  C4, as the code has it. Let \<open>p\<close> be the text handed to the repair, a beginning of a
  JSON document that stops at a point where the automaton of \<open>JSON.parse\<close> has not failed
  and \<open>recovered\<close> gives a value \<open>v\<close>: inside a string that is a value (not inside a key,
  not after a backslash, not inside a \<open>\u\<close> escape), in a number at a place where the
  number may end, after an opening brace or bracket, after a complete value inside a
  container, or after the comma that follows one; \<open>v\<close> is what the containers open at the
  cut hold when they are closed as they stand, innermost first, the string or number in
  progress taken as far as it goes. If moreover no comma of \<open>p\<close> stands before a closing
  brace or bracket, whitespace apart (in a document this can only be inside a string),
  then the repair succeeds with exactly \<open>v\<close>; the text it parses is \<open>p\<close>, with a closing
  quote when the scan ended inside a string and without its trailing comma, followed by
  the closers on the stack, which are the closers of the frames of the automaton,
  innermost first.
\<close>

theorem repairJson_recovers:
  assumes "recovered (run p) = Some v" and "\<not> commaBeforeCloser p"
  shows "repairJson p = Inr v
       \<and> repairText p
           = stripTrailingComma (if inString (scan p) then p @ [34] else p) @ stack (scan p)
       \<and> (\<exists>fs e l. run p = PState fs e l \<and> stack (scan p) = map closer fs)"
proof -
  from recovered_closed [OF assms(1)] assms(2)
  have a: "JSON_parse (closeOpen p) = Some v" and b: "\<not> commaBeforeCloser (closeOpen p)"
    by simp_all
  from stripCommasBeforeClosers_noop [OF b] have c: "repairText p = closeOpen p"
    by (simp add: repairText_def)
  from assms(1) obtain fs e l where st: "run p = PState fs e l"
    by (cases "run p") simp_all
  from corr_run [of p] st have "stack (scan p) = map closer fs"
    by simp
  with st a c show ?thesis
    by (simp add: repairJson_def closeOpen_def Let_def)
qed

theorem repairJson_recovers_witness:
  \<open>recovered (run (js ''{"a":[1,{"b":"c''))
     = Some (JObject [(js ''a'', JArray [JNumber (js ''1''), JObject [(js ''b'', JString (js ''c''))]])])
   \<and> \<not> commaBeforeCloser (js ''{"a":[1,{"b":"c'')
   \<and> repairJson (js ''{"a":[1,{"b":"c'')
     = Inr (JObject [(js ''a'', JArray [JNumber (js ''1''), JObject [(js ''b'', JString (js ''c''))]])])
   \<and> repairText (js ''{"a":[1,{"b":"c'') = js ''{"a":[1,{"b":"c"}]}''\<close>
proof -
  have r: \<open>recovered (run (js ''{"a":[1,{"b":"c''))
     = Some (JObject [(js ''a'', JArray [JNumber (js ''1''), JObject [(js ''b'', JString (js ''c''))]])])\<close>
    by (simp add: js_def parse_eval)
  have n: \<open>\<not> commaBeforeCloser (js ''{"a":[1,{"b":"c'')\<close>
    by (simp add: js_def closerNext_def isJsSpace_def)
  have t: \<open>stripTrailingComma (js ''{"a":[1,{"b":"c'' @ [34]) @ [125, 93, 125]
             = js ''{"a":[1,{"b":"c"}]}''\<close>
    by (simp add: js_def extract_eval)
  have i: \<open>inString (scan (js ''{"a":[1,{"b":"c''))\<close>
    and s: \<open>stack (scan (js ''{"a":[1,{"b":"c'')) = [125, 93, 125]\<close>
    by (simp_all add: js_def extract_eval)
  from repairJson_recovers [OF r n] i s t
  have \<open>repairJson (js ''{"a":[1,{"b":"c'')
     = Inr (JObject [(js ''a'', JArray [JNumber (js ''1''), JObject [(js ''b'', JString (js ''c''))]])])\<close>
    and \<open>repairText (js ''{"a":[1,{"b":"c'') = js ''{"a":[1,{"b":"c"}]}''\<close>
    by simp_all
  with r n show ?thesis
    by blast
qed

text \<open>More cuts that the repair recovers: after a comma, in a number, after an opening
  bracket.\<close>

lemma repairJson_after_comma:
  \<open>repairJson (js ''{"a":[1,{"b":"c"}, '')
     = Inr (JObject [(js ''a'', JArray [JNumber (js ''1''), JObject [(js ''b'', JString (js ''c''))]])])\<close>
  by (simp add: js_def parse_eval extract_eval)

lemma repairJson_in_number:
  \<open>repairJson (js ''{"a":[1,2'') = Inr (JObject [(js ''a'', JArray [JNumber (js ''1''), JNumber (js ''2'')])])\<close>
  by (simp add: js_def parse_eval extract_eval)

lemma repairJson_after_open:
  \<open>repairJson (js ''{"a":['') = Inr (JObject [(js ''a'', JArray [])])\<close>
  by (simp add: js_def parse_eval extract_eval)

text \<open>
  The claim as stated fails: \<open>{"a"\<close> is the valid document \<open>{"a":1}\<close> cut inside the
  object, not inside an escape, and the repaired text \<open>{"a"}\<close> does not parse.
\<close>

theorem repairJson_truncation_counterexample:
  \<open>JSON_parse (js ''{"a":1}'') = Some (JObject [(js ''a'', JNumber (js ''1''))])
   \<and> repairText (js ''{"a"'') = js ''{"a"}''
   \<and> repairJson (js ''{"a"'') = Inl IncompleteOutput
   \<and> extractJson (js ''{"a"'') = Inl IncompleteOutput\<close>
  by (simp add: js_def parse_eval extract_eval)

section \<open>Properties of the enrichment merges\<close>

lemma enumerate_from0_length [simp]: "length (enumerate_from0 xs) = length xs"
  by (simp add: enumerate_from0_def)

lemma enumerate_from0_nth [simp]: "i < length xs \<Longrightarrow> enumerate_from0 xs ! i = (i, xs ! i)"
  by (simp add: enumerate_from0_def)

lemma withAlternatives_days_length [simp]:
  "length (days (withAlternatives f p)) = length (days p)"
  by (simp add: withAlternatives_def)

lemma withAlternatives_day:
  "d < length (days p) \<Longrightarrow>
     days (withAlternatives f p) ! d =
       (days p ! d)\<lparr>points := map (\<lambda>(i, pt).
               (case f (d, i) of None \<Rightarrow> pt | Some alts \<Rightarrow> pt\<lparr>alternatives := Some alts\<rparr>))
             (enumerate_from0 (points (days p ! d)))\<rparr>"
  by (simp add: withAlternatives_def)

lemma withAlternatives_points_length [simp]:
  "d < length (days p) \<Longrightarrow>
     length (points (days (withAlternatives f p) ! d)) = length (points (days p ! d))"
  by (simp add: withAlternatives_day)

lemma withAlternatives_point:
  "d < length (days p) \<Longrightarrow> i < length (points (days p ! d)) \<Longrightarrow>
     points (days (withAlternatives f p) ! d) ! i =
       (case f (d, i) of
          None \<Rightarrow> points (days p ! d) ! i
        | Some alts \<Rightarrow> (points (days p ! d) ! i)\<lparr>alternatives := Some alts\<rparr>)"
  by (simp add: withAlternatives_day)

lemma withAlternatives_rest [simp]:
  "(withAlternatives f p)\<lparr>days := ds\<rparr> = p\<lparr>days := ds\<rparr>"
  by (simp add: withAlternatives_def)

lemma day_eqI:
  "dy\<lparr>points := []\<rparr> = dy'\<lparr>points := []\<rparr> \<Longrightarrow> points dy = points dy' \<Longrightarrow> dy = (dy' :: DayItinerary)"
  by (cases dy, cases dy') simp

lemma plan_eqI:
  "p\<lparr>days := []\<rparr> = q\<lparr>days := []\<rparr> \<Longrightarrow> days p = days q \<Longrightarrow> p = (q :: TravelPlan)"
  by (cases p, cases q) simp

lemma withAlternatives_compose:
  "withAlternatives g (withAlternatives f p) = withAlternatives (f ++ g) p"
proof (rule plan_eqI)
  show "(withAlternatives g (withAlternatives f p))\<lparr>days := []\<rparr> = (withAlternatives (f ++ g) p)\<lparr>days := []\<rparr>"
    by simp
  show "days (withAlternatives g (withAlternatives f p)) = days (withAlternatives (f ++ g) p)"
  proof (rule nth_equalityI)
    show "length (days (withAlternatives g (withAlternatives f p))) = length (days (withAlternatives (f ++ g) p))"
      by simp
  next
    fix d assume "d < length (days (withAlternatives g (withAlternatives f p)))"
    then have d: "d < length (days p)" by simp
    show "days (withAlternatives g (withAlternatives f p)) ! d = days (withAlternatives (f ++ g) p) ! d"
    proof (rule day_eqI)
      show "(days (withAlternatives g (withAlternatives f p)) ! d)\<lparr>points := []\<rparr>
              = (days (withAlternatives (f ++ g) p) ! d)\<lparr>points := []\<rparr>"
        using d by (simp add: withAlternatives_day)
      show "points (days (withAlternatives g (withAlternatives f p)) ! d)
              = points (days (withAlternatives (f ++ g) p) ! d)"
      proof (rule nth_equalityI)
        show "length (points (days (withAlternatives g (withAlternatives f p)) ! d))
                = length (points (days (withAlternatives (f ++ g) p) ! d))"
          using d by simp
      next
        fix i assume "i < length (points (days (withAlternatives g (withAlternatives f p)) ! d))"
        then have i: "i < length (points (days p ! d))" using d by simp
        show "points (days (withAlternatives g (withAlternatives f p)) ! d) ! i
                = points (days (withAlternatives (f ++ g) p) ! d) ! i"
          using d i by (simp add: withAlternatives_point map_add_def split: option.splits)
      qed
    qed
  qed
qed

lemma mergeAlternatives_eq:
  "mergeAlternatives d i a (Some p) = Some (withAlternatives [(d, i) \<mapsto> a] p)"
proof -
  have "days (withAlternatives [(d, i) \<mapsto> a] p) =
          (case nth_opt (days p) d of
             None \<Rightarrow> days p
           | Some dy \<Rightarrow>
               (case nth_opt (points dy) i of
                  None \<Rightarrow> days p
                | Some pt \<Rightarrow> (days p)[d := dy\<lparr>points := (points dy)[i := pt\<lparr>alternatives := Some a\<rparr>]\<rparr>]))"
    (is "?l = ?r")
  proof (rule nth_equalityI)
    show "length ?l = length ?r"
      by (simp add: nth_opt_def)
  next
    fix k assume "k < length ?l"
    then have k: "k < length (days p)" by simp
    show "?l ! k = ?r ! k"
    proof (rule day_eqI)
      show "(?l ! k)\<lparr>points := []\<rparr> = (?r ! k)\<lparr>points := []\<rparr>"
        using k by (simp add: withAlternatives_day nth_opt_def nth_list_update)
      show "points (?l ! k) = points (?r ! k)"
      proof (rule nth_equalityI)
        show "length (points (?l ! k)) = length (points (?r ! k))"
          using k by (simp add: nth_opt_def nth_list_update)
      next
        fix j assume "j < length (points (?l ! k))"
        then have j: "j < length (points (days p ! k))" using k by simp
        show "points (?l ! k) ! j = points (?r ! k) ! j"
          using k j by (simp add: withAlternatives_point nth_opt_def nth_list_update)
      qed
    qed
  qed
  then have deq: "?r = days (withAlternatives [(d, i) \<mapsto> a] p)"
    by simp
  have "p\<lparr>days := ?r\<rparr> = withAlternatives [(d, i) \<mapsto> a] p"
  proof (rule plan_eqI)
    show "days (p\<lparr>days := ?r\<rparr>) = days (withAlternatives [(d, i) \<mapsto> a] p)"
      using deq by simp
  qed simp
  moreover have "mergeAlternatives d i a (Some p) = Some (p\<lparr>days := ?r\<rparr>)"
    by (simp add: mergeAlternatives_def Let_def split: option.splits)
  ultimately show ?thesis
    by simp
qed

lemma mergeAll_eq:
  "distinct (map fst ts) \<Longrightarrow> mergeAll ts (Some p) = Some (withAlternatives (map_of ts) p)"
proof (induction ts arbitrary: p)
  case Nil
  have "withAlternatives Map.empty p = p"
  proof (rule plan_eqI)
    show "days (withAlternatives Map.empty p) = days p"
    proof (rule nth_equalityI)
      fix d assume "d < length (days (withAlternatives Map.empty p))"
      then have d: "d < length (days p)" by simp
      show "days (withAlternatives Map.empty p) ! d = days p ! d"
      proof (rule day_eqI)
        show "points (days (withAlternatives Map.empty p) ! d) = points (days p ! d)"
          using d by (intro nth_equalityI) (simp_all add: withAlternatives_point)
      qed (use d in \<open>simp add: withAlternatives_day\<close>)
    qed simp
  qed simp
  then show ?case by (simp add: mergeAll_def)
next
  case (Cons t ts)
  obtain d i a where t: "t = ((d, i), a)" by (cases t) auto
  have notin: "(d, i) \<notin> dom (map_of ts)"
    using Cons.prems t by (simp add: dom_map_of_conv_image_fst)
  have "mergeAll (t # ts) (Some p) = mergeAll ts (Some (withAlternatives [(d, i) \<mapsto> a] p))"
    by (simp add: mergeAll_def t mergeAlternatives_eq)
  also have "\<dots> = Some (withAlternatives (map_of ts) (withAlternatives [(d, i) \<mapsto> a] p))"
    using Cons.IH Cons.prems by simp
  also have "\<dots> = Some (withAlternatives ([(d, i) \<mapsto> a] ++ map_of ts) p)"
    by (simp add: withAlternatives_compose)
  also have "[(d, i) \<mapsto> a] ++ map_of ts = map_of (t # ts)"
    using notin by (auto simp: t map_add_def fun_eq_iff split: option.splits)
  finally show ?case .
qed

lemma mergeAll_any_order:
  assumes "distinct (map fst ts)" and "mset ts' = mset ts"
  shows "mergeAll ts' (Some p) = Some (withAlternatives (map_of ts) p)"
proof -
  have "mset (map fst ts') = mset (map fst ts)"
    using assms(2) by (metis mset_map)
  then have d': "distinct (map fst ts')"
    using assms(1) by (metis mset_eq_imp_distinct_iff)
  have "set ts' = set ts"
    using assms(2) by (rule mset_eq_setD)
  then have "map_of ts' = map_of ts"
    using d' assms(1) by (simp add: map_of_inject_set)
  then show ?thesis
    using mergeAll_eq [OF d'] by simp
qed

text \<open>
  C8. Tasks for distinct coordinates, their merges applied in any order \<open>ts'\<close> of the
  list \<open>ts\<close>: the final plan has, at every coordinate with a task, the point with the
  alternatives of that task and every other field as before; every other point, every
  other field of the days and every other field of the plan is unchanged.
\<close>

theorem mergeAll_each_own_result:
  assumes "distinct (map fst ts)" and "mset ts' = mset ts"
  shows "\<exists>p'. mergeAll ts' (Some p) = Some p'
      \<and> p'\<lparr>days := days p\<rparr> = p
      \<and> length (days p') = length (days p)
      \<and> (\<forall>d<length (days p).
            (days p' ! d)\<lparr>points := points (days p ! d)\<rparr> = days p ! d
          \<and> length (points (days p' ! d)) = length (points (days p ! d))
          \<and> (\<forall>i<length (points (days p ! d)).
               points (days p' ! d) ! i =
                 (case map_of ts (d, i) of
                    None \<Rightarrow> points (days p ! d) ! i
                  | Some alts \<Rightarrow> (points (days p ! d) ! i)\<lparr>alternatives := Some alts\<rparr>)))"
proof -
  let ?p' = "withAlternatives (map_of ts) p"
  have "mergeAll ts' (Some p) = Some ?p'"
    using assms by (rule mergeAll_any_order)
  moreover have "?p'\<lparr>days := days p\<rparr> = p"
    by simp
  moreover have "length (days ?p') = length (days p)"
    by simp
  moreover have "(days ?p' ! d)\<lparr>points := points (days p ! d)\<rparr> = days p ! d"
    if "d < length (days p)" for d
    using that by (simp add: withAlternatives_day)
  moreover have "length (points (days ?p' ! d)) = length (points (days p ! d))"
    if "d < length (days p)" for d
    using that by simp
  moreover have "points (days ?p' ! d) ! i =
      (case map_of ts (d, i) of
         None \<Rightarrow> points (days p ! d) ! i
       | Some alts \<Rightarrow> (points (days p ! d) ! i)\<lparr>alternatives := Some alts\<rparr>)"
    if "d < length (days p)" and "i < length (points (days p ! d))" for d i
    using that by (rule withAlternatives_point)
  ultimately show ?thesis
    by blast
qed

theorem mergeAll_each_own_result_witness:
  "distinct (map fst sampleTasks) \<and> mset (rev sampleTasks) = mset sampleTasks
   \<and> (\<exists>p'. mergeAll (rev sampleTasks) (Some (samplePlan [samplePoint, samplePoint])) = Some p'
        \<and> points (days p' ! 0) ! 0 = samplePoint\<lparr>alternatives := Some [JNull]\<rparr>
        \<and> points (days p' ! 0) ! 1 = samplePoint\<lparr>alternatives := Some []\<rparr>)"
proof -
  have h1: "distinct (map fst sampleTasks)"
    by (simp add: sampleTasks_def)
  have h2: "mset (rev sampleTasks) = mset sampleTasks"
    by simp
  from mergeAll_each_own_result [OF h1 h2, of "samplePlan [samplePoint, samplePoint]"]
  obtain p' where m: "mergeAll (rev sampleTasks) (Some (samplePlan [samplePoint, samplePoint])) = Some p'"
    and pts: "\<forall>d<length (days (samplePlan [samplePoint, samplePoint])).
        \<forall>i<length (points (days (samplePlan [samplePoint, samplePoint]) ! d)).
          points (days p' ! d) ! i =
            (case map_of sampleTasks (d, i) of
               None \<Rightarrow> points (days (samplePlan [samplePoint, samplePoint]) ! d) ! i
             | Some alts \<Rightarrow>
                 (points (days (samplePlan [samplePoint, samplePoint]) ! d) ! i)\<lparr>alternatives := Some alts\<rparr>)"
    by blast
  have "points (days p' ! 0) ! 0 = samplePoint\<lparr>alternatives := Some [JNull]\<rparr>"
    using pts [rule_format, of 0 0] by (simp add: samplePlan_def sampleTasks_def)
  moreover have "points (days p' ! 0) ! 1 = samplePoint\<lparr>alternatives := Some []\<rparr>"
    using pts [rule_format, of 0 1] by (simp add: samplePlan_def sampleTasks_def)
  ultimately show ?thesis
    using h1 h2 m by blast
qed

text \<open>
  C10. When the latest plan has no point at the coordinate of a finished task, the task
  changes nothing: the plan it writes equals the one it read, and nothing is logged.
\<close>

theorem enrichTask_stale_coordinate:
  assumes "\<not> hasPoint p dIdx pIdx"
  shows "mergeAlternatives dIdx pIdx alts (Some p) = Some p
       \<and> enrichTask dIdx pIdx (Inr alts) (Some p, warnings) = (Some p, warnings)"
proof -
  have "mergeAlternatives dIdx pIdx alts (Some p) = Some (p\<lparr>days := days p\<rparr>)"
    using assms
    by (auto simp: mergeAlternatives_def hasPoint_def nth_opt_def Let_def split: option.splits)
  then show ?thesis
    by (simp add: enrichTask_def)
qed

theorem enrichTask_stale_coordinate_witness:
  "\<not> hasPoint (samplePlan [samplePoint]) 0 1
   \<and> mergeAlternatives 0 1 [JNull] (Some (samplePlan [samplePoint])) = Some (samplePlan [samplePoint])
   \<and> enrichTask 0 1 (Inr [JNull]) (Some (samplePlan [samplePoint]), [])
       = (Some (samplePlan [samplePoint]), [])"
proof -
  have h: "\<not> hasPoint (samplePlan [samplePoint]) 0 1"
    by (simp add: hasPoint_def samplePlan_def)
  show ?thesis
    using h enrichTask_stale_coordinate [OF h, of "[JNull]" "[]"] by simp
qed

section \<open>Properties of the plan decoder\<close>

text \<open>Which numbers are zero: the literals of value 0, and those that round to it.\<close>

lemmas number_eval = numberIsZero_def mantissa_def exponent_def fractionDigits_def
  notExp_def parseInt10_def isDigit_def Let_def

lemma numberIsZero_examples:
  \<open>numberIsZero (js ''0'')\<close> \<open>numberIsZero (js ''-0.0'')\<close> \<open>numberIsZero (js ''0e5'')\<close>
  \<open>numberIsZero (js ''1e-400'')\<close> \<open>numberIsZero (js ''0.1E-400'')\<close>
  \<open>\<not> numberIsZero (js ''5e-324'')\<close> \<open>\<not> numberIsZero (js ''3e-324'')\<close>
  \<open>numberIsZero (js ''2e-324'')\<close>
  \<open>\<not> numberIsZero (js ''0.001'')\<close> \<open>\<not> numberIsZero (js ''-12.50'')\<close>
  \<open>\<not> numberIsZero (js ''1e999'')\<close>
  by (simp_all add: js_def number_eval)

text \<open>The falsy values.\<close>

lemma falsy_cases:
  "\<not> truthy d \<longleftrightarrow>
     d = None \<or> d = Some JNull \<or> d = Some (JBool False) \<or> d = Some (JString [])
     \<or> (\<exists>lx. d = Some (JNumber lx) \<and> numberIsZero lx)"
proof (cases d)
  case None
  then show ?thesis by simp
next
  case (Some v)
  then show ?thesis by (cases v) auto
qed

text \<open>
  C7, as the code has it. A plan that \<open>generateTravelPlan\<close> returns has for
  \<open>durationDays\<close> the number of days that was requested, whatever the reply holds, and
  for \<open>days\<close> the \<open>days\<close> member of the parsed reply when that is truthy, and the empty
  list for every falsy one: no member, \<open>null\<close>, \<open>false\<close>, the empty string, a number that
  is zero. So \<open>durationDays\<close> is the number of entries exactly when \<open>days\<close> is an array
  of as many entries as were requested.
\<close>

theorem generateTravelPlan_durationDays_requested:
  assumes "generateTravelPlan params now response = Inr plan"
  shows "\<exists>text data d. response = Inr text \<and> extractJson text = Inr data
           \<and> getProp data (js ''days'') = Inr d
           \<and> gen_durationDays plan = param_days params
           \<and> gen_days plan = (if truthy d then the d else JArray [])
           \<and> (d = None \<or> d = Some JNull \<or> d = Some (JBool False) \<or> d = Some (JString [])
                \<or> (\<exists>lx. d = Some (JNumber lx) \<and> numberIsZero lx)
              \<longrightarrow> gen_days plan = JArray [])
           \<and> (\<forall>n. arrayLength (gen_days plan) = Some n \<longrightarrow>
                  (gen_durationDays plan = int n \<longleftrightarrow> param_days params = int n))"
proof -
  from assms obtain t data d where r: "response = Inr t"
    and e: "extractJson t = Inr data"
    and g: "getProp data (js ''days'') = Inr d"
    and p: "gen_durationDays plan = param_days params"
    and o: "gen_days plan = orElse d (JArray [])"
    by (auto simp: generateTravelPlan_def split: sum.splits)
  from o have a: "gen_days plan = (if truthy d then the d else JArray [])"
    by (simp add: orElse_def)
  have "gen_days plan = JArray []"
    if "d = None \<or> d = Some JNull \<or> d = Some (JBool False) \<or> d = Some (JString [])
          \<or> (\<exists>lx. d = Some (JNumber lx) \<and> numberIsZero lx)"
  proof -
    from that have "\<not> truthy d" by (simp only: falsy_cases)
    with a show ?thesis by simp
  qed
  with r e g p a show ?thesis
    by auto
qed

theorem generateTravelPlan_durationDays_requested_witness:
  \<open>map_sum id gen_durationDays
      (generateTravelPlan sampleParams 0 (Inr (js ''{"days":[1,2,3]}''))) = Inr 3
   \<and> map_sum id gen_days
      (generateTravelPlan sampleParams 0 (Inr (js ''{"days":[1,2,3]}'')))
     = Inr (JArray [JNumber [49], JNumber [50], JNumber [51]])\<close>
proof -
  have e: \<open>extractJson (js ''{"days":[1,2,3]}'')
             = Inr (JObject [(js ''days'', JArray [JNumber [49], JNumber [50], JNumber [51]])])\<close>
    by (simp add: js_def parse_eval extract_eval)
  obtain plan where g: \<open>generateTravelPlan sampleParams 0 (Inr (js ''{"days":[1,2,3]}'')) = Inr plan\<close>
    by (simp add: generateTravelPlan_def e)
  from generateTravelPlan_durationDays_requested [OF g]
  have "gen_durationDays plan = 3" and "gen_days plan = JArray [JNumber [49], JNumber [50], JNumber [51]]"
    by (auto simp: e sampleParams_def)
  with g show ?thesis
    by simp
qed

text \<open>A reply whose \<open>days\<close> is a number that rounds to zero gives the empty list too.\<close>

lemma generateTravelPlan_days_rounds_to_zero:
  \<open>map_sum id gen_days
      (generateTravelPlan sampleParams 0 (Inr (js ''{"days":1e-400}''))) = Inr (JArray [])\<close>
proof -
  have e: \<open>extractJson (js ''{"days":1e-400}'') = Inr (JObject [(js ''days'', JNumber (js ''1e-400''))])\<close>
    by (simp add: js_def parse_eval extract_eval)
  have z: \<open>numberIsZero (js ''1e-400'')\<close>
    by (simp add: js_def number_eval)
  show ?thesis
    by (simp add: generateTravelPlan_def e orElse_def z)
qed

text \<open>
  The claim as stated fails: three days requested and a reply without \<open>days\<close> give a
  plan with \<open>durationDays = 3\<close> and an empty list of days; so does a reply with one day.
\<close>

theorem generateTravelPlan_durationDays_counterexample:
  \<open>map_sum id gen_durationDays
      (generateTravelPlan sampleParams 0 (Inr (js ''{"title":"x"}''))) = Inr 3
   \<and> map_sum id gen_days
      (generateTravelPlan sampleParams 0 (Inr (js ''{"title":"x"}''))) = Inr (JArray [])
   \<and> map_sum id gen_durationDays
      (generateTravelPlan sampleParams 0 (Inr (js ''{"days":[1]}''))) = Inr 3
   \<and> map_sum id gen_days
      (generateTravelPlan sampleParams 0 (Inr (js ''{"days":[1]}''))) = Inr (JArray [JNumber [49]])\<close>
proof -
  have e: \<open>extractJson (js ''{"title":"x"}'') = Inr (JObject [(js ''title'', JString (js ''x''))])\<close>
    by (simp add: js_def parse_eval extract_eval)
  have f: \<open>extractJson (js ''{"days":[1]}'') = Inr (JObject [(js ''days'', JArray [JNumber [49]])])\<close>
    by (simp add: js_def parse_eval extract_eval)
  show ?thesis
    by (simp add: generateTravelPlan_def e f orElse_def sampleParams_def) (simp add: js_def)
qed

section \<open>Properties of the request queue\<close>

lemma queue_inv_empty: "queue_inv emptyQueue"
  by (simp add: queue_inv_def emptyQueue_def maxConcurrent_def)

lemma process_started:
  "started (process q) @ queue (process q) = started q @ queue q"
  by (simp add: process_def Let_def split: list.splits)

lemma process_pending: "pending (process q) = pending q"
  by (simp add: process_def pending_def Let_def split: list.splits)

lemma process_finished: "finished (process q) = finished q"
  by (simp add: process_def Let_def split: list.splits)

lemma process_errorLog: "errorLog (process q) = errorLog q"
  by (simp add: process_def Let_def split: list.splits)

lemma process_inv:
  assumes "activeCount q = int (length (running q))"
    and "activeCount q \<le> maxConcurrent"
    and "length (queue q) \<le> 1 \<or> activeCount q \<ge> maxConcurrent - 1"
    and "mset (finished q) + mset (running q) = mset (started q)"
  shows "queue_inv (process q)"
proof (cases "activeCount q \<ge> maxConcurrent \<or> queue q = []")
  case True
  then have "process q = q" by (simp add: process_def)
  with True assms show ?thesis by (auto simp: queue_inv_def)
next
  case False
  then obtain fn rest where qu: "queue q = fn # rest" by (cases "queue q") auto
  with False have p: "process q = q\<lparr>activeCount := activeCount q + 1, queue := rest,
      running := running q @ [fn], started := started q @ [fn]\<rparr>"
    by (simp add: process_def Let_def)
  from False assms(2,3) qu have a: "rest = [] \<or> activeCount q + 1 = maxConcurrent"
    by auto
  show ?thesis
    unfolding p queue_inv_def using assms(1,2,4) False a by auto
qed

lemma add_step:
  assumes "queue_inv q"
  shows "queue_inv (add fn q)"
    and "started (add fn q) @ queue (add fn q) = started q @ queue q @ [fn]"
    and "pending (add fn q) = pending q + 1"
    and "finished (add fn q) = finished q"
proof -
  have i: "activeCount q = int (length (running q))" "activeCount q \<le> maxConcurrent"
    "queue q = [] \<or> activeCount q = maxConcurrent"
    "mset (finished q) + mset (running q) = mset (started q)"
    using assms by (auto simp: queue_inv_def)
  show "queue_inv (add fn q)"
    unfolding add_def
  proof (rule process_inv)
    show "length (queue (q\<lparr>queue := queue q @ [fn]\<rparr>)) \<le> 1
        \<or> activeCount (q\<lparr>queue := queue q @ [fn]\<rparr>) \<ge> maxConcurrent - 1"
      using i by auto
  qed (use i in simp_all)
  show "started (add fn q) @ queue (add fn q) = started q @ queue q @ [fn]"
    by (simp add: add_def process_started)
  show "pending (add fn q) = pending q + 1"
    by (simp add: add_def process_pending) (simp add: pending_def)
  show "finished (add fn q) = finished q"
    by (simp add: add_def process_finished)
qed

lemma resume_eq:
  "resume fn out q = Inr (process (q\<lparr>errorLog := errorLog q @ (case out of Fulfilled \<Rightarrow> [] | Rejected e \<Rightarrow> [e]),
       activeCount := activeCount q - 1, running := remove1 fn (running q),
       finished := finished q @ [fn]\<rparr>))"
  by (cases out) (simp_all add: resume_def try_catch_finally_def)

lemma resume_step:
  assumes "queue_inv q" and "fn \<in> set (running q)"
  shows "\<exists>q'. resume fn out q = Inr q' \<and> queue_inv q'
           \<and> started q' @ queue q' = started q @ queue q
           \<and> pending q' + 1 = pending q
           \<and> finished q' = finished q @ [fn]
           \<and> errorLog q' = errorLog q @ (case out of Fulfilled \<Rightarrow> [] | Rejected e \<Rightarrow> [e])"
proof -
  define q2 where "q2 = q\<lparr>errorLog := errorLog q @ (case out of Fulfilled \<Rightarrow> [] | Rejected e \<Rightarrow> [e]),
       activeCount := activeCount q - 1, running := remove1 fn (running q),
       finished := finished q @ [fn]\<rparr>"
  have l: "length (running q) > 0" using assms(2) by (cases "running q") auto
  have r: "length (remove1 fn (running q)) = length (running q) - 1"
    using assms(2) by (simp add: length_remove1)
  have m: "add_mset fn (mset (remove1 fn (running q))) = mset (running q)"
    using assms(2) by simp
  have i: "activeCount q = int (length (running q))" "activeCount q \<le> maxConcurrent"
    "queue q = [] \<or> activeCount q = maxConcurrent"
    "mset (finished q) + mset (running q) = mset (started q)"
    using assms(1) by (auto simp: queue_inv_def)
  have "int (length (running q) - 1) = int (length (running q)) - 1"
    using assms(2) by (cases "running q") simp_all
  then have a1: "activeCount q2 = int (length (running q2))"
    using i(1) r by (simp add: q2_def)
  have a2: "activeCount q2 \<le> maxConcurrent"
    using i(2) by (simp add: q2_def)
  have a3: "length (queue q2) \<le> 1 \<or> activeCount q2 \<ge> maxConcurrent - 1"
    using i(3) by (auto simp: q2_def)
  have "mset (finished q2) + mset (running q2)
          = mset (finished q) + add_mset fn (mset (remove1 fn (running q)))"
    by (simp add: q2_def)
  also have "\<dots> = mset (finished q) + mset (running q)"
    by (simp only: m)
  also have "\<dots> = mset (started q2)"
    using i(4) by (simp add: q2_def)
  finally have a5: "mset (finished q2) + mset (running q2) = mset (started q2)" .
  have inv: "queue_inv (process q2)"
    using a1 a2 a3 a5 by (rule process_inv)
  have "resume fn out q = Inr (process q2)"
    unfolding q2_def by (rule resume_eq)
  moreover have "started (process q2) @ queue (process q2) = started q @ queue q"
    by (simp add: process_started) (simp add: q2_def)
  moreover have "pending (process q2) + 1 = pending q"
    using l r by (simp add: process_pending) (simp add: q2_def pending_def)
  moreover have "finished (process q2) = finished q @ [fn]"
    by (simp add: process_finished) (simp add: q2_def)
  moreover have "errorLog (process q2) = errorLog q @ (case out of Fulfilled \<Rightarrow> [] | Rejected e \<Rightarrow> [e])"
    by (simp add: process_errorLog) (simp add: q2_def)
  ultimately show ?thesis
    using inv by blast
qed

lemma fire_step:
  assumes "queue_inv q" and "fire ev q = Some q'"
  shows "queue_inv q' \<and> started q' @ queue q' = started q @ queue q @ submitted [ev]
       \<and> (if isSettle ev then pending q' + 1 = pending q else pending q' = pending q + 1)"
proof (cases ev)
  case (Add fn)
  with assms add_step [OF assms(1), of fn] show ?thesis by simp
next
  case (Settle fn out)
  with assms(2) have r: "fn \<in> set (running q)" by (simp split: if_splits)
  from resume_step [OF assms(1) r, of out] Settle assms(2) r show ?thesis
    by auto
qed

lemma submitted_append: "submitted (xs @ ys) = submitted xs @ submitted ys"
  by (induction xs rule: submitted.induct) simp_all

lemma exec_inv:
  assumes "queue_inv q" and "exec evs q = Some q'"
  shows "queue_inv q' \<and> started q' @ queue q' = started q @ queue q @ submitted evs"
  using assms
proof (induction evs arbitrary: q)
  case Nil
  then show ?case by simp
next
  case (Cons ev evs)
  from Cons.prems(2) obtain q1 where f: "fire ev q = Some q1" and e: "exec evs q1 = Some q'"
    by (auto split: option.splits)
  from fire_step [OF Cons.prems(1) f] have i1: "queue_inv q1"
    and s1: "started q1 @ queue q1 = started q @ queue q @ submitted [ev]" by simp_all
  from Cons.IH [OF i1 e] s1 show ?case
    using submitted_append [of "[ev]" evs] by simp
qed

lemma exec_settles_pending:
  assumes "queue_inv q" and "exec ss q = Some q'" and "list_all isSettle ss"
  shows "pending q' + length ss = pending q \<and> submitted ss = []"
  using assms
proof (induction ss arbitrary: q)
  case Nil
  then show ?case by simp
next
  case (Cons ev ss)
  from Cons.prems(2) obtain q1 where f: "fire ev q = Some q1" and e: "exec ss q1 = Some q'"
    by (auto split: option.splits)
  from Cons.prems(3) have s: "isSettle ev" and ss: "list_all isSettle ss" by simp_all
  from fire_step [OF Cons.prems(1) f] s have i1: "queue_inv q1" and p: "pending q1 + 1 = pending q"
    by simp_all
  from s have "submitted [ev] = []" by (cases ev) simp_all
  with Cons.IH [OF i1 e ss] p show ?case
    using submitted_append [of "[ev]" ss] by simp
qed

lemma idle_when_none_running:
  assumes "queue_inv q" and "running q = []"
  shows "queue q = [] \<and> mset (finished q) = mset (started q)"
  using assms by (auto simp: queue_inv_def maxConcurrent_def)

lemma drain_exists:
  assumes "queue_inv q"
  shows "\<exists>ss q'. list_all isSettle ss \<and> exec ss q = Some q' \<and> running q' = []"
  using assms
proof (induction "pending q" arbitrary: q)
  case 0
  then have "running q = []" by (simp add: pending_def)
  then have "list_all isSettle [] \<and> exec [] q = Some q \<and> running q = []" by simp
  then show ?case by blast
next
  case (Suc n)
  show ?case
  proof (cases "running q")
    case Nil
    then have "list_all isSettle [] \<and> exec [] q = Some q \<and> running q = []" by simp
    then show ?thesis by blast
  next
    case (Cons fn rest)
    then have r: "fn \<in> set (running q)" by simp
    from resume_step [OF Suc.prems r, of Fulfilled]
    obtain q1 where q1: "resume fn Fulfilled q = Inr q1" and i1: "queue_inv q1"
      and p1: "pending q1 + 1 = pending q" by blast
    from p1 Suc.hyps(2) have "n = pending q1" by simp
    from Suc.hyps(1) [OF this i1]
    obtain ss q' where ss: "list_all isSettle ss" "exec ss q1 = Some q'" "running q' = []"
      by blast
    have "list_all isSettle (Settle fn Fulfilled # ss)
          \<and> exec (Settle fn Fulfilled # ss) q = Some q' \<and> running q' = []"
      using ss r q1 by simp
    then show ?thesis by blast
  qed
qed

text \<open>
  C5. In every state that a sequence of \<open>add\<close> calls and settlements leads to: at
  most two tasks are in flight; the tasks started so far, followed by the tasks waiting,
  are the tasks submitted, in the order of submission; every started task is in flight
  or has settled, once. Every task in flight can settle, with either outcome; any
  further run of settlements lowers the number of tasks waiting or in flight by its
  length; and there is such a run after which no task waits or is in flight and the
  tasks that have settled are the tasks submitted, each once.
\<close>

theorem requestQueue_bounded_fifo_complete:
  assumes "exec evs emptyQueue = Some q"
  shows "activeCount q = int (length (running q)) \<and> length (running q) \<le> 2
       \<and> started q @ queue q = submitted evs
       \<and> mset (finished q) + mset (running q) = mset (started q)
       \<and> (running q = [] \<longrightarrow> queue q = [] \<and> mset (finished q) = mset (submitted evs))
       \<and> (\<forall>fn\<in>set (running q). \<forall>out. \<exists>q'. fire (Settle fn out) q = Some q')
       \<and> (\<forall>ss q'. list_all isSettle ss \<and> exec ss q = Some q'
             \<longrightarrow> pending q' + length ss = pending q)
       \<and> (\<exists>ss q'. list_all isSettle ss \<and> exec ss q = Some q' \<and> queue q' = []
             \<and> running q' = [] \<and> mset (finished q') = mset (submitted evs))"
proof -
  from exec_inv [OF queue_inv_empty assms]
  have inv: "queue_inv q" and fifo: "started q @ queue q = submitted evs"
    by (simp_all add: emptyQueue_def)
  from inv have c: "activeCount q = int (length (running q))" and "activeCount q \<le> maxConcurrent"
    and m: "mset (finished q) + mset (running q) = mset (started q)"
    by (auto simp: queue_inv_def)
  then have b: "length (running q) \<le> 2"
    by (simp add: maxConcurrent_def)
  have idle: "queue q = [] \<and> mset (finished q) = mset (submitted evs)" if "running q = []"
    using idle_when_none_running [OF inv that] fifo by auto
  have settle: "\<exists>q'. fire (Settle fn out) q = Some q'" if "fn \<in> set (running q)" for fn out
    using resume_step [OF inv that, of out] that by auto
  have count: "pending q' + length ss = pending q"
    if "list_all isSettle ss \<and> exec ss q = Some q'" for ss q'
    using exec_settles_pending [OF inv] that by blast
  from drain_exists [OF inv]
  obtain ss q' where ss: "list_all isSettle ss" "exec ss q = Some q'" "running q' = []"
    by blast
  from exec_inv [OF inv ss(2)] exec_settles_pending [OF inv ss(2) ss(1)]
  have inv': "queue_inv q'" and "started q' @ queue q' = submitted evs"
    using fifo by simp_all
  with idle_when_none_running [OF inv' ss(3)]
  have "queue q' = [] \<and> mset (finished q') = mset (submitted evs)"
    by auto
  with ss have drain: "\<exists>ss q'. list_all isSettle ss \<and> exec ss q = Some q' \<and> queue q' = []
      \<and> running q' = [] \<and> mset (finished q') = mset (submitted evs)"
    by blast
  from c b fifo m idle settle count drain show ?thesis
    by blast
qed

theorem requestQueue_bounded_fifo_complete_witness:
  "exec sampleEvents emptyQueue
     = Some \<lparr>queue = [4], activeCount = 2, running = [1, 3], started = [1, 2, 3],
             finished = [2], errorLog = [TypeError]\<rparr>
   \<and> length (running (the (exec sampleEvents emptyQueue))) \<le> 2
   \<and> started (the (exec sampleEvents emptyQueue)) @ queue (the (exec sampleEvents emptyQueue))
       = submitted sampleEvents
   \<and> (\<exists>ss q'. list_all isSettle ss \<and> exec ss (the (exec sampleEvents emptyQueue)) = Some q'
         \<and> queue q' = [] \<and> running q' = []
         \<and> mset (finished q') = mset (submitted sampleEvents))"
proof -
  have e: "exec sampleEvents emptyQueue
     = Some \<lparr>queue = [4], activeCount = 2, running = [1, 3], started = [1, 2, 3],
             finished = [2], errorLog = [TypeError]\<rparr>"
    by (simp add: sampleEvents_def emptyQueue_def add_def process_def resume_def
        try_catch_finally_def maxConcurrent_def Let_def)
  from requestQueue_bounded_fifo_complete [OF e] show ?thesis
    unfolding e option.sel by blast
qed

text \<open>
  C6. When the promise of a task rejects, \<open>process\<close> does not fail: the error goes
  to the log, the count is decremented and \<open>process\<close> runs again, exactly as after a
  success, so that a waiting task is taken off the queue and started. And a task of
  \<open>prefetchAlternatives\<close> whose request fails catches the error itself, logs a warning
  and leaves the plan as it is.
\<close>

theorem resume_catches_failure:
  "resume fn (Rejected e) q =
     Inr (process (q\<lparr>errorLog := errorLog q @ [e], activeCount := activeCount q - 1,
                      running := remove1 fn (running q), finished := finished q @ [fn]\<rparr>))
   \<and> (\<exists>q'. resume fn (Rejected e) q = Inr q' \<and> errorLog q' = errorLog q @ [e]
          \<and> resume fn Fulfilled q = Inr (q'\<lparr>errorLog := errorLog q\<rparr>)
          \<and> (\<forall>g rest. queue q = g # rest \<and> activeCount q \<le> maxConcurrent \<longrightarrow>
                 queue q' = rest \<and> started q' = started q @ [g]
                 \<and> activeCount q' = activeCount q))
   \<and> enrichTask dIdx pIdx (Inl err) (plan, warnings) = (plan, warnings @ [err])"
proof -
  let ?q2 = "q\<lparr>errorLog := errorLog q @ [e], activeCount := activeCount q - 1,
                running := remove1 fn (running q), finished := finished q @ [fn]\<rparr>"
  have r: "resume fn (Rejected e) q = Inr (process ?q2)"
    using resume_eq [of fn "Rejected e" q] by simp
  have l: "errorLog (process ?q2) = errorLog q @ [e]"
    by (simp add: process_errorLog)
  have f: "resume fn Fulfilled q = Inr ((process ?q2)\<lparr>errorLog := errorLog q\<rparr>)"
    using resume_eq [of fn Fulfilled q]
    by (simp add: process_def Let_def split: list.splits)
  have n: "queue (process ?q2) = rest \<and> started (process ?q2) = started q @ [g]
            \<and> activeCount (process ?q2) = activeCount q"
    if "queue q = g # rest \<and> activeCount q \<le> maxConcurrent" for g rest
    using that by (simp add: process_def Let_def)
  have t: "enrichTask dIdx pIdx (Inl err) (plan, warnings) = (plan, warnings @ [err])"
    by (simp add: enrichTask_def)
  from r l f n t show ?thesis
    by blast
qed

theorem resume_catches_failure_witness:
  "resume (2::nat) (Rejected TypeError)
      \<lparr>queue = [4], activeCount = 2, running = [1, 2], started = [1, 2],
       finished = [], errorLog = []\<rparr>
     = Inr \<lparr>queue = [], activeCount = 2, running = [1, 4], started = [1, 2, 4],
            finished = [2], errorLog = [TypeError]\<rparr>
   \<and> enrichTask 0 0 (Inl TypeError) (Some (samplePlan [samplePoint]), [])
       = (Some (samplePlan [samplePoint]), [TypeError])"
  using resume_catches_failure [of "2::nat" TypeError
      "\<lparr>queue = [4], activeCount = 2, running = [1, 2], started = [1, 2],
        finished = [], errorLog = []\<rparr>" 0 0 TypeError "Some (samplePlan [samplePoint])" "[]"]
  by (simp add: process_def maxConcurrent_def Let_def)

end
